theory Spec2Isabelle
  imports Main
begin

section \<open>The appcast channel filter (.github/scripts/clean\_appcast.py)\<close>

text \<open>
  The script parses an appcast with \<^verbatim>\<open>xml.etree.ElementTree\<close>, removes every
  \<^verbatim>\<open>item\<close> of every \<^verbatim>\<open>channel\<close> element whose Sparkle channel equals a given
  name, and writes the tree back to the same path.

  The script mutates \<^verbatim>\<open>Element\<close> objects in place while it holds lists of references
  to them (\<^verbatim>\<open>findall\<close> returns a fresh list), so elements live in an explicit store:
  an address is the identity of an \<^verbatim>\<open>Element\<close> object, a cell holds its fields, and
  the child list of a cell is a list of addresses. Strings are byte strings in UTF-8.
\<close>

subsection \<open>Documents and element objects\<close>

text \<open>
  The element tree that \<^verbatim>\<open>ET.parse\<close> yields: tags in Clark notation
  (\<^verbatim>\<open>{uri}local\<close>), attributes, the text before the first child and the tail after the
  end tag (\<^verbatim>\<open>None\<close> when there is no character data), and the children in document
  order.
\<close>

datatype xml =
  Element (xtag: string) (xattrib: "(string \<times> string) list")
          (xtext: "string option") (xtail: "string option") (xkids: "xml list")

type_synonym addr = nat

record element =
  tag :: string
  attrib :: "(string \<times> string) list"
  text' :: "string option"
  tail :: "string option"
  children :: "addr list"

type_synonym heap = "addr \<Rightarrow> element"

text \<open>The store: the cells and the number of objects allocated so far.\<close>

record store =
  cells :: heap
  allocated :: nat

datatype exn = FileNotFoundError | ParseError string | ValueError string

text \<open>
  A well-formed file, as far as the library tells its parts apart. Character data is a
  sequence of characters written as themselves (also inside a CDATA section) or as a
  reference (\<^verbatim>\<open>&#13;\<close>, \<^verbatim>\<open>&amp;\<close>). The elements of the file carry the character
  data before their first child and after their end tag; tags and attribute names are in
  Clark notation and attribute values are the values the parser reports. Everything else in
  the file is kept apart from the elements: the XML declaration, the document type
  declaration, comments, processing instructions, and the namespaces declared (a
  declaration is kept by its name, the prefix is not).
\<close>

datatype cdata = Lit char | Ref char

datatype felement =
  FElement (ftag: string) (fattrib: "(string \<times> string) list")
           (ftext: "cdata list") (ftail: "cdata list") (fkids: "felement list")

datatype markup =
    XML_declaration string
  | Doctype string
  | Comment string
  | Processing_instruction string string
  | Namespace_declaration string

record document =
  extras :: "markup list"
  root_element :: felement

text \<open>
  A file holds either a well-formed document or bytes that the parser rejects with a
  message. The trace records the files opened for reading and for writing.
\<close>

datatype content = Wellformed document | Malformed string

type_synonym filesys = "string \<rightharpoonup> content"

datatype io = Opened_read string | Opened_write string

record outcome =
  stdout :: "string list"
  stderr :: "string list"
  status :: nat
  files :: filesys
  trace :: "io list"

subsection \<open>The library calls the script makes\<close>

text \<open>
  \<^verbatim>\<open>ET.parse\<close> builds one fresh object per element. Children are allocated before their
  parent, each at the next free address; the parent's child list holds their addresses in
  document order.
\<close>

fun alloc :: "xml \<Rightarrow> store \<Rightarrow> addr \<times> store"
  and alloc_list :: "xml list \<Rightarrow> store \<Rightarrow> addr list \<times> store" where
  "alloc (Element tg ats tx ta ks) s =
     (case alloc_list ks s of (as, s') \<Rightarrow>
        (allocated s',
         \<lparr>cells = (cells s')(allocated s' :=
              \<lparr>tag = tg, attrib = ats, text' = tx, tail = ta, children = as\<rparr>),
          allocated = Suc (allocated s')\<rparr>))"
| "alloc_list [] s = ([], s)"
| "alloc_list (k # ks) s =
     (case alloc k s of (a, s') \<Rightarrow>
        (case alloc_list ks s' of (as, s'') \<Rightarrow> (a # as, s'')))"

definition empty_store :: store where
  "empty_store =
     \<lparr>cells = (\<lambda>_. \<lparr>tag = [], attrib = [], text' = None, tail = None, children = []\<rparr>),
      allocated = 0\<rparr>"

text \<open>
  What the parser reports for character data: a literal carriage return, alone or followed
  by a literal line feed, is one line feed (the end-of-line handling of XML); a reference
  gives its character as it is.
\<close>

definition CR :: char where
  "CR = CHR 0x0D"

definition LF :: char where
  "LF = CHR 0x0A"

fun read_cdata :: "cdata list \<Rightarrow> string" where
  "read_cdata [] = []"
| "read_cdata (Ref x # r) = x # read_cdata r"
| "read_cdata [Lit x] = [if x = CR then LF else x]"
| "read_cdata (Lit x # Lit y # r) =
     (if x = CR \<and> y = LF then LF # read_cdata r
      else (if x = CR then LF else x) # read_cdata (Lit y # r))"
| "read_cdata (Lit x # Ref y # r) = (if x = CR then LF else x) # y # read_cdata r"

definition read_text :: "cdata list \<Rightarrow> string option" where
  "read_text d = (if d = [] then None else Some (read_cdata d))"

fun read_element :: "felement \<Rightarrow> xml" where
  "read_element (FElement tg ats tx ta ks) =
     Element tg ats (read_text tx) (read_text ta) (map read_element ks)"

text \<open>
  The tree of a file. The parser reports the elements and their character data only: the
  \<open>extras\<close> of the file leave no trace in the tree. After the end tag of the root a file
  has white space at most, which is not reported, so the root has no tail.
\<close>

definition read_document :: "document \<Rightarrow> xml" where
  "read_document d =
     (case read_element (root_element d) of
        Element tg ats tx ta ks \<Rightarrow> Element tg ats tx None ks)"

text \<open>\<^verbatim>\<open>tree = ET.parse(path); root = tree.getroot()\<close>: the root's address and the store.\<close>

definition ET_parse :: "filesys \<Rightarrow> string \<Rightarrow> exn + (addr \<times> store)" where
  "ET_parse fs path =
     (case fs path of
        None \<Rightarrow> Inl FileNotFoundError
      | Some (Malformed e) \<Rightarrow> Inl (ParseError e)
      | Some (Wellformed d) \<Rightarrow> Inr (alloc (read_document d) empty_store))"

text \<open>
  \<^verbatim>\<open>Element.iter(tag)\<close>: the element itself when its tag is the one asked for, then the
  same for each child in order. The walk is bounded by a number of steps down;
  \<open>None\<close> means that the walk does not end.
\<close>

fun Element_iter :: "nat \<Rightarrow> heap \<Rightarrow> addr \<Rightarrow> string \<Rightarrow> addr list option" where
  "Element_iter 0 h e tg = None"
| "Element_iter (Suc n) h e tg =
     map_option (\<lambda>found. (if tag (h e) = tg then [e] else []) @ concat found)
       (those (map (\<lambda>k. Element_iter n h k tg) (children (h e))))"

text \<open>
  \<^verbatim>\<open>e.findall('.//tg')\<close>: ElementPath selects, from \<^verbatim>\<open>e.iter(tg)\<close>, the elements that
  are not \<^verbatim>\<open>e\<close> itself, and \<^verbatim>\<open>findall\<close> collects them in a list before the caller's
  loop starts. No object chain is longer than the number of objects allocated.
\<close>

definition findall_descendants :: "store \<Rightarrow> addr \<Rightarrow> string \<Rightarrow> addr list option" where
  "findall_descendants s e tg =
     map_option (filter (\<lambda>x. x \<noteq> e)) (Element_iter (allocated s) (cells s) e tg)"

text \<open>\<^verbatim>\<open>e.findall(tg)\<close> for a plain tag: the direct children with that tag, as a new list.\<close>

definition Element_findall :: "heap \<Rightarrow> addr \<Rightarrow> string \<Rightarrow> addr list" where
  "Element_findall h e tg = filter (\<lambda>k. tag (h k) = tg) (children (h e))"

text \<open>\<^verbatim>\<open>e.find(tg)\<close>: the first direct child with that tag, or \<^verbatim>\<open>None\<close>.\<close>

definition Element_find :: "heap \<Rightarrow> addr \<Rightarrow> string \<Rightarrow> addr option" where
  "Element_find h e tg = List.find (\<lambda>k. tag (h k) = tg) (children (h e))"

text \<open>
  \<^verbatim>\<open>parent.remove(sub)\<close>: drops the first reference to the object \<^verbatim>\<open>sub\<close> (compared by
  identity) from the child list, and raises \<^verbatim>\<open>ValueError\<close> when there is none. The wording
  of the message varies with the version of the library; on a parsed tree the script never
  raises it (\<open>remove_items_file\<close> below).
\<close>

definition Element_remove :: "heap \<Rightarrow> addr \<Rightarrow> addr \<Rightarrow> exn + heap" where
  "Element_remove h parent sub =
     (if sub \<in> set (children (h parent))
      then Inr (h(parent := (h parent)\<lparr>children := remove1 sub (children (h parent))\<rparr>))
      else Inl (ValueError ''list.remove(x): x not in list''))"

text \<open>
  The element tree that the serializer walks from the root, with the same bound as
  \<open>Element_iter\<close>.
\<close>

fun serialize :: "nat \<Rightarrow> heap \<Rightarrow> addr \<Rightarrow> xml option" where
  "serialize 0 h e = None"
| "serialize (Suc n) h e =
     map_option (Element (tag (h e)) (attrib (h e)) (text' (h e)) (tail (h e)))
       (those (map (serialize n h) (children (h e))))"

text \<open>
  What the serializer writes for text and tail (\<^verbatim>\<open>_escape_cdata\<close>): the ampersand and
  the angle brackets as references, every other character as itself, a carriage return
  too. Attribute values are written so that they read back as they were
  (\<^verbatim>\<open>_escape_attrib\<close> writes carriage return, line feed and tab as references).
\<close>

definition write_cdata :: "string \<Rightarrow> cdata list" where
  "write_cdata s =
     map (\<lambda>x. if x = CHR ''&'' \<or> x = CHR ''<'' \<or> x = CHR ''>'' then Ref x else Lit x) s"

definition write_text :: "string option \<Rightarrow> cdata list" where
  "write_text t = (case t of None \<Rightarrow> [] | Some s \<Rightarrow> write_cdata s)"

fun write_element :: "xml \<Rightarrow> felement" where
  "write_element (Element tg ats tx ta ks) =
     FElement tg ats (write_text tx) (write_text ta) (map write_element ks)"

text \<open>
  The namespaces the serializer declares (\<^verbatim>\<open>_namespaces\<close>): those of the tags and of the
  attribute names in the tree, each once, and never the one of the \<^verbatim>\<open>xml\<close> prefix.
\<close>

definition namespace_of :: "string \<Rightarrow> string list" where
  "namespace_of name =
     (case name of
        [] \<Rightarrow> []
      | x # rest \<Rightarrow> if x = CHR ''{'' then [takeWhile (\<lambda>y. y \<noteq> CHR ''}'') rest] else [])"

fun names_used :: "xml \<Rightarrow> string list" where
  "names_used (Element tg ats tx ta ks) = tg # map fst ats @ concat (map names_used ks)"

definition namespaces_used :: "xml \<Rightarrow> string list" where
  "namespaces_used t =
     filter (\<lambda>uri. uri \<noteq> ''http://www.w3.org/XML/1998/namespace'')
       (remdups (concat (map namespace_of (names_used t))))"

text \<open>
  The file that \<^verbatim>\<open>tree.write(path, encoding='utf-8', xml_declaration=True)\<close> leaves for
  a tree: the declaration of the serializer, the namespaces used, and the elements; no
  comment, processing instruction or document type declaration.
\<close>

definition written_declaration :: string where
  "written_declaration =
     ''version='' @ [CHR 0x27] @ ''1.0'' @ [CHR 0x27]
       @ '' encoding='' @ [CHR 0x27] @ ''utf-8'' @ [CHR 0x27]"

definition write_document :: "xml \<Rightarrow> document" where
  "write_document t =
     \<lparr>extras = XML_declaration written_declaration
                # map Namespace_declaration (namespaces_used t),
      root_element = write_element t\<rparr>"

text \<open>
  \<^verbatim>\<open>tree.write(path, ...)\<close>: the file written for the tree below the root object. The
  write is taken to succeed: the recursion limit of the interpreter, which a document some
  thousand levels deep exceeds, is outside the model, as are permissions and disk space.
\<close>

definition ET_write :: "store \<Rightarrow> addr \<Rightarrow> document option" where
  "ET_write s root = map_option write_document (serialize (allocated s) (cells s) root)"

text \<open>\<^verbatim>\<open>str(n)\<close> for a count.\<close>

fun digit :: "nat \<Rightarrow> char" where
  "digit n = char_of (48 + n)"

function str :: "nat \<Rightarrow> string" where
  "str n = (if n < 10 then [digit n] else str (n div 10) @ [digit (n mod 10)])"
  by pat_completeness auto
termination
  by (relation "measure id") auto

subsection \<open>The script\<close>

definition SPARKLE_NS :: string where
  "SPARKLE_NS = ''http://www.andymatuschak.org/xml-namespaces/sparkle''"

text \<open>The tag \<^verbatim>\<open>f'{{{SPARKLE_NS}}}channel'\<close>.\<close>

definition sparkle_channel :: string where
  "sparkle_channel = ''{'' @ SPARKLE_NS @ ''}channel''"

text \<open>
  Lines 40-41: \<^verbatim>\<open>channel_elem = item.find(...)\<close> and the test
  \<^verbatim>\<open>channel_elem is not None and channel_elem.text == channel_to_remove\<close>.
\<close>

definition item_matches :: "heap \<Rightarrow> string \<Rightarrow> addr \<Rightarrow> bool" where
  "item_matches h channel_to_remove item =
     (case Element_find h item sparkle_channel of
        None \<Rightarrow> False
      | Some channel_elem \<Rightarrow> text' (h channel_elem) = Some channel_to_remove)"

text \<open>Lines 38-43: the loop over \<^verbatim>\<open>items\<close>; the state is the heap and \<^verbatim>\<open>removed_count\<close>.\<close>

fun items_loop :: "string \<Rightarrow> addr \<Rightarrow> addr list \<Rightarrow> heap \<times> nat \<Rightarrow> exn + heap \<times> nat" where
  "items_loop c channel [] (h, removed_count) = Inr (h, removed_count)"
| "items_loop c channel (item # items) (h, removed_count) =
     (if item_matches h c item
      then (case Element_remove h channel item of
              Inl e \<Rightarrow> Inl e
            | Inr h' \<Rightarrow> items_loop c channel items (h', removed_count + 1))
      else items_loop c channel items (h, removed_count))"

text \<open>Lines 36-37: the loop over the channel elements found before the loop started.\<close>

fun channels_loop :: "string \<Rightarrow> addr list \<Rightarrow> heap \<times> nat \<Rightarrow> exn + heap \<times> nat" where
  "channels_loop c [] st = Inr st"
| "channels_loop c (channel # channels) (h, removed_count) =
     (case items_loop c channel (Element_findall h channel ''item'') (h, removed_count) of
        Inl e \<Rightarrow> Inl e
      | Inr st' \<Rightarrow> channels_loop c channels st')"

text \<open>The marks \<^verbatim>\<open>U+2713\<close> and \<^verbatim>\<open>U+2717\<close> in UTF-8.\<close>

definition check_mark :: string where
  "check_mark = [CHR 0xE2, CHR 0x9C, CHR 0x93]"

definition ballot_x :: string where
  "ballot_x = [CHR 0xE2, CHR 0x9C, CHR 0x97]"

definition removed_message :: "nat \<Rightarrow> string \<Rightarrow> string \<Rightarrow> string" where
  "removed_message removed_count channel_to_remove appcast_path =
     check_mark @ '' Removed '' @ str removed_count @ '' '' @ [CHR 0x27] @ channel_to_remove
       @ [CHR 0x27] @ '' channel release(s) from '' @ appcast_path"

text \<open>
  Lines 33-43 on the parsed tree: the store after the loops and \<^verbatim>\<open>removed_count\<close>, or
  the exception raised. \<open>None\<close> when the walk over the tree does not end.
\<close>

definition remove_items :: "string \<Rightarrow> addr \<times> store \<Rightarrow> (exn + store \<times> nat) option" where
  "remove_items channel_to_remove parsed =
     (case parsed of (root, tree) \<Rightarrow>
        (case findall_descendants tree root ''channel'' of
           None \<Rightarrow> None
         | Some channels \<Rightarrow>
             (case channels_loop channel_to_remove channels (cells tree, 0) of
                Inl e \<Rightarrow> Some (Inl e)
              | Inr (h, removed_count) \<Rightarrow> Some (Inr (tree\<lparr>cells := h\<rparr>, removed_count)))))"

text \<open>
  Lines 30-46, the body of the \<^verbatim>\<open>try\<close> up to the write: an exception, or the document
  written and the count.
\<close>

definition try_body :: "string \<Rightarrow> string \<Rightarrow> filesys \<Rightarrow> (exn + document \<times> nat) option" where
  "try_body appcast_path channel_to_remove fs =
     (case ET_parse fs appcast_path of
        Inl e \<Rightarrow> Some (Inl e)
      | Inr (root, tree) \<Rightarrow>
          (case remove_items channel_to_remove (root, tree) of
             None \<Rightarrow> None
           | Some (Inl e) \<Rightarrow> Some (Inl e)
           | Some (Inr (tree', removed_count)) \<Rightarrow>
               (case ET_write tree' root of
                  None \<Rightarrow> None
                | Some doc \<Rightarrow> Some (Inr (doc, removed_count)))))"

definition failure :: "string \<Rightarrow> filesys \<Rightarrow> io list \<Rightarrow> outcome" where
  "failure line fs evs = \<lparr>stdout = [], stderr = [line], status = 1, files = fs, trace = evs\<rparr>"

text \<open>
  Lines 21-58. An exception leaves the \<^verbatim>\<open>try\<close> before \<^verbatim>\<open>tree.write\<close>, so the files are
  as they were; a missing file was never opened. The write itself and the two
  \<^verbatim>\<open>print\<close> calls are taken to succeed: permissions, disk space, the interpreter's
  recursion limit and the encoding of the streams are outside the model. A normal return
  is exit status 0, \<^verbatim>\<open>sys.exit(1)\<close> is exit status 1.
\<close>

definition clean_appcast :: "string \<Rightarrow> string \<Rightarrow> filesys \<Rightarrow> outcome option" where
  "clean_appcast appcast_path channel_to_remove fs =
     (case try_body appcast_path channel_to_remove fs of
        None \<Rightarrow> None
      | Some (Inr (doc, removed_count)) \<Rightarrow>
          Some \<lparr>stdout = [removed_message removed_count channel_to_remove appcast_path],
                stderr = [], status = 0,
                files = fs(appcast_path \<mapsto> Wellformed doc),
                trace = [Opened_read appcast_path, Opened_write appcast_path]\<rparr>
      | Some (Inl FileNotFoundError) \<Rightarrow>
          Some (failure (ballot_x @ '' File not found: '' @ appcast_path) fs [])
      | Some (Inl (ParseError e)) \<Rightarrow>
          Some (failure (ballot_x @ '' Failed to parse XML: '' @ e) fs
                  [Opened_read appcast_path])
      | Some (Inl (ValueError e)) \<Rightarrow>
          Some (failure (ballot_x @ '' Unexpected error: '' @ e) fs
                  [Opened_read appcast_path]))"

definition usage :: "string list" where
  "usage = [''Usage: python clean_appcast.py <appcast_file> <channel_name>'',
            ''Example: python clean_appcast.py appcast.xml edge'']"

text \<open>Lines 61-70; \<open>argv\<close> is \<^verbatim>\<open>sys.argv\<close>, the script's name first.\<close>

definition main :: "string list \<Rightarrow> filesys \<Rightarrow> outcome option" where
  "main argv fs =
     (if length argv \<noteq> 3
      then Some \<lparr>stdout = usage, stderr = [], status = 1, files = fs, trace = []\<rparr>
      else clean_appcast (argv ! 1) (argv ! 2) fs)"

section \<open>Describing the filter\<close>

subsection \<open>What the loops do to a store\<close>

text \<open>
  The test of lines 38-41 on one child of a channel element: the child is an \<^verbatim>\<open>item\<close>
  (it is in \<^verbatim>\<open>channel.findall('item')\<close>) and \<open>item_matches\<close> holds.
\<close>

definition removable :: "heap \<Rightarrow> string \<Rightarrow> addr \<Rightarrow> bool" where
  "removable h c x = (tag (h x) = ''item'' \<and> item_matches h c x)"

text \<open>The heap in which the objects in \<open>C\<close> have lost their removable children.\<close>

definition filtered :: "heap \<Rightarrow> string \<Rightarrow> addr set \<Rightarrow> heap" where
  "filtered h c C =
     (\<lambda>a. if a \<in> C then (h a)\<lparr>children := filter (\<lambda>x. \<not> removable h c x) (children (h a))\<rparr>
          else h a)"

subsection \<open>Trees held in a store\<close>

text \<open>The number of elements of a document, which is the number of objects parsing makes.\<close>

fun n_elements :: "xml \<Rightarrow> nat" where
  "n_elements (Element tg ats tx ta ks) = Suc (sum_list (map n_elements ks))"

text \<open>
  \<open>rep h a t\<close>: the object at \<open>a\<close> and the objects below it hold the tree \<open>t\<close>;
  \<open>addrs h a t\<close> lists their addresses in document order.
\<close>

fun rep :: "heap \<Rightarrow> addr \<Rightarrow> xml \<Rightarrow> bool"
  and reps :: "heap \<Rightarrow> addr list \<Rightarrow> xml list \<Rightarrow> bool" where
  "rep h a (Element tg ats tx ta ks) =
     (tag (h a) = tg \<and> attrib (h a) = ats \<and> text' (h a) = tx \<and> tail (h a) = ta
      \<and> reps h (children (h a)) ks)"
| "reps h [] [] = True"
| "reps h (a # as) (k # ks) = (rep h a k \<and> reps h as ks)"
| "reps h _ _ = False"

fun addrs :: "heap \<Rightarrow> addr \<Rightarrow> xml \<Rightarrow> addr list"
  and addrs_list :: "heap \<Rightarrow> addr list \<Rightarrow> xml list \<Rightarrow> addr list" where
  "addrs h a (Element tg ats tx ta ks) = a # addrs_list h (children (h a)) ks"
| "addrs_list h (a # as) (k # ks) = addrs h a k @ addrs_list h as ks"
| "addrs_list h _ _ = []"

subsection \<open>The filter on documents\<close>

text \<open>
  The same test on a document: an \<^verbatim>\<open>item\<close> element whose first child in the Sparkle
  namespace named \<^verbatim>\<open>channel\<close> has the text \<open>c\<close>.
\<close>

definition first_sparkle_channel :: "xml \<Rightarrow> xml option" where
  "first_sparkle_channel e = List.find (\<lambda>k. xtag k = sparkle_channel) (xkids e)"

definition matching_item :: "string \<Rightarrow> xml \<Rightarrow> bool" where
  "matching_item c e =
     (xtag e = ''item'' \<and>
      (case first_sparkle_channel e of None \<Rightarrow> False | Some s \<Rightarrow> xtext s = Some c))"

text \<open>
  An element without the matching items of every \<^verbatim>\<open>channel\<close> element in it, itself
  included; and a document without the matching items of every \<^verbatim>\<open>channel\<close> element
  below its root.
\<close>

fun without_items :: "string \<Rightarrow> xml \<Rightarrow> xml" where
  "without_items c (Element tg ats tx ta ks) =
     Element tg ats tx ta
       (map (without_items c) (filter (\<lambda>k. \<not> (tg = ''channel'' \<and> matching_item c k)) ks))"

definition filtered_document :: "string \<Rightarrow> xml \<Rightarrow> xml" where
  "filtered_document c doc =
     Element (xtag doc) (xattrib doc) (xtext doc) (xtail doc) (map (without_items c) (xkids doc))"

text \<open>
  The elements of a document in document order, those below the root, the
  \<^verbatim>\<open>channel\<close> elements among these, and their matching items.
\<close>

fun elements :: "xml \<Rightarrow> xml list" where
  "elements (Element tg ats tx ta ks) = Element tg ats tx ta ks # concat (map elements ks)"

definition descendants :: "xml \<Rightarrow> xml list" where
  "descendants doc = concat (map elements (xkids doc))"

definition feed_channels :: "xml \<Rightarrow> xml list" where
  "feed_channels doc = filter (\<lambda>e. xtag e = ''channel'') (descendants doc)"

definition matching_items :: "string \<Rightarrow> xml \<Rightarrow> xml list" where
  "matching_items c doc =
     concat (map (\<lambda>channel. filter (matching_item c) (xkids channel)) (feed_channels doc))"

text \<open>The number of matching items of the \<^verbatim>\<open>channel\<close> elements in an element.\<close>

fun removals :: "string \<Rightarrow> xml \<Rightarrow> nat" where
  "removals c (Element tg ats tx ta ks) =
     (if tg = ''channel'' then length (filter (matching_item c) ks) else 0)
       + sum_list (map (removals c) ks)"

text \<open>
  The children the filter takes out: the matching items of a \<^verbatim>\<open>channel\<close> element.
\<close>

definition removed_item :: "string \<Rightarrow> string \<Rightarrow> xml \<Rightarrow> bool" where
  "removed_item c parent_tag k = (parent_tag = ''channel'' \<and> matching_item c k)"

text \<open>
  \<open>only_drops D e e'\<close>: \<open>e'\<close> is \<open>e\<close> with some children dropped, at any depth, each
  of them satisfying \<open>D\<close> with the tag of its parent; every child is either dropped or
  kept in its place, and a kept element has its tag, attributes, text and tail.
  \<open>only_drops_below D doc doc'\<close> is the same for a document, none of the children of
  the root being dropped.
\<close>

fun only_drops :: "(string \<Rightarrow> xml \<Rightarrow> bool) \<Rightarrow> xml \<Rightarrow> xml \<Rightarrow> bool"
  and only_drops_list :: "(string \<Rightarrow> xml \<Rightarrow> bool) \<Rightarrow> string \<Rightarrow> xml list \<Rightarrow> xml list \<Rightarrow> bool" where
  "only_drops D (Element tg ats tx ta ks) e' =
     (xtag e' = tg \<and> xattrib e' = ats \<and> xtext e' = tx \<and> xtail e' = ta
      \<and> only_drops_list D tg ks (xkids e'))"
| "only_drops_list D tg [] ks' = (ks' = [])"
| "only_drops_list D tg (k # ks) ks' =
     ((D tg k \<and> only_drops_list D tg ks ks')
      \<or> (case ks' of [] \<Rightarrow> False
          | k' # ks'' \<Rightarrow> only_drops D k k' \<and> only_drops_list D tg ks ks''))"

definition only_drops_below :: "(string \<Rightarrow> xml \<Rightarrow> bool) \<Rightarrow> xml \<Rightarrow> xml \<Rightarrow> bool" where
  "only_drops_below D doc doc' =
     (xtag doc' = xtag doc \<and> xattrib doc' = xattrib doc \<and> xtext doc' = xtext doc
      \<and> xtail doc' = xtail doc \<and> list_all2 (only_drops D) (xkids doc) (xkids doc'))"

text \<open>
  The elements of a document that the filter neither removes nor removes an ancestor of:
  the root, and below a kept element every child except the matching items of a
  \<^verbatim>\<open>channel\<close> element below the root.
\<close>

fun kept :: "string \<Rightarrow> xml \<Rightarrow> xml list" where
  "kept c (Element tg ats tx ta ks) =
     Element tg ats tx ta ks
       # concat (map (kept c) (filter (\<lambda>k. \<not> removed_item c tg k) ks))"

definition kept_elements :: "string \<Rightarrow> xml \<Rightarrow> xml list" where
  "kept_elements c doc = doc # concat (map (kept c) (xkids doc))"

text \<open>
  A tree with no carriage return in any text or tail. The parser reports one only for a
  carriage return that the file has as a character reference.
\<close>

definition no_cr :: "string option \<Rightarrow> bool" where
  "no_cr t = (case t of None \<Rightarrow> True | Some s \<Rightarrow> CR \<notin> set s)"

fun cr_free :: "xml \<Rightarrow> bool" where
  "cr_free (Element tg ats tx ta ks) = (no_cr tx \<and> no_cr ta \<and> list_all cr_free ks)"

text \<open>A tree as the parser reports it: a text or tail is never the empty string.\<close>

fun reported :: "xml \<Rightarrow> bool" where
  "reported (Element tg ats tx ta ks) =
     (tx \<noteq> Some [] \<and> ta \<noteq> Some [] \<and> list_all reported ks)"

text \<open>
  The specification's wording, read literally: an item that has some child in the Sparkle
  namespace named \<^verbatim>\<open>channel\<close> with the text \<open>c\<close>, under a \<^verbatim>\<open>channel\<close> element
  anywhere in the document, the root included.
\<close>

definition has_channel_text :: "string \<Rightarrow> xml \<Rightarrow> bool" where
  "has_channel_text c e =
     list_ex (\<lambda>s. xtag s = sparkle_channel \<and> xtext s = Some c) (xkids e)"

definition items_with_channel_text :: "string \<Rightarrow> xml \<Rightarrow> xml list" where
  "items_with_channel_text c doc =
     concat (map (\<lambda>ch. filter (\<lambda>e. xtag e = ''item'' \<and> has_channel_text c e) (xkids ch))
               (filter (\<lambda>e. xtag e = ''channel'') (elements doc)))"

subsection \<open>Example documents\<close>

definition mk_sparkle :: "string \<Rightarrow> xml" where
  "mk_sparkle c = Element sparkle_channel [] (Some c) None []"

definition mk_item :: "xml list \<Rightarrow> xml" where
  "mk_item ks = Element ''item'' [] None None ks"

definition mk_channel :: "xml list \<Rightarrow> xml" where
  "mk_channel ks = Element ''channel'' [] None None ks"

definition mk_rss :: "xml list \<Rightarrow> xml" where
  "mk_rss ks = Element ''rss'' [] None None ks"

text \<open>
  The example of the specification: a feed channel with items for \<^verbatim>\<open>stable\<close>,
  \<^verbatim>\<open>edge\<close>, \<^verbatim>\<open>edge\<close> and one without a channel tag, and what the specification
  expects for the target \<^verbatim>\<open>edge\<close>. Parsing puts the Sparkle channel elements at 0, 2
  and 4, the items at 1, 3, 5 and 6, the feed channel at 7 and the root at 8.
\<close>

definition spec_example :: xml where
  "spec_example =
     mk_rss [mk_channel [mk_item [mk_sparkle ''stable''], mk_item [mk_sparkle ''edge''],
                         mk_item [mk_sparkle ''edge''], mk_item []]]"

definition spec_example_filtered :: xml where
  "spec_example_filtered = mk_rss [mk_channel [mk_item [mk_sparkle ''stable''], mk_item []]]"

definition example_tree :: store where
  "example_tree = snd (alloc spec_example empty_store)"

text \<open>
  An item with two Sparkle channel children. Parsing puts them at 0 and 1, the item at 2,
  the feed channel at 3 and the root at 4.
\<close>

definition two_sparkle_example :: xml where
  "two_sparkle_example =
     mk_rss [mk_channel [mk_item [mk_sparkle ''stable'', mk_sparkle ''edge'']]]"

definition two_sparkle_tree :: store where
  "two_sparkle_tree = snd (alloc two_sparkle_example empty_store)"

text \<open>A document whose root is itself a \<^verbatim>\<open>channel\<close> element.\<close>

definition root_channel_example :: xml where
  "root_channel_example = mk_channel [mk_item [mk_sparkle ''edge'']]"

text \<open>
  A file with a document type declaration, a comment and a namespace that no element
  uses, whose one item is followed by character data (the tail of the item).
\<close>

definition title_element :: xml where
  "title_element = Element ''title'' [] (Some ''App'') None []"

definition noted_example :: xml where
  "noted_example =
     mk_rss [mk_channel [title_element,
                         Element ''item'' [] None (Some ''notes for 2.0'') [mk_sparkle ''edge'']]]"

definition noted_file :: document where
  "noted_file =
     \<lparr>extras = [XML_declaration (''version='' @ [CHR 0x22] @ ''1.0'' @ [CHR 0x22]),
                Doctype ''rss'', Comment ''edge builds'',
                Namespace_declaration SPARKLE_NS, Namespace_declaration ''urn:unused''],
      root_element = write_element noted_example\<rparr>"

text \<open>
  A file in which the text of the Sparkle channel element ends with a carriage return
  written as a character reference, and the target that ends with a line feed.
\<close>

definition cr_file :: document where
  "cr_file =
     \<lparr>extras = [],
      root_element =
        FElement ''rss'' [] [] []
          [FElement ''channel'' [] [] []
            [FElement ''item'' [] [] []
              [FElement sparkle_channel [] (map Lit ''edge'' @ [Ref CR]) [] []]]]\<rparr>"

definition edge_line :: string where
  "edge_line = ''edge'' @ [LF]"

text \<open>The tree of that file, in which the text ends with the carriage return.\<close>

definition cr_example :: xml where
  "cr_example = mk_rss [mk_channel [mk_item [mk_sparkle (''edge'' @ [CR])]]]"

text \<open>
  Items inside an item: a \<^verbatim>\<open>stable\<close> item and an item without a channel tag inside an
  \<^verbatim>\<open>edge\<close> item, and an \<^verbatim>\<open>edge\<close> item inside a \<^verbatim>\<open>stable\<close> item.
\<close>

definition inside_edge_example :: xml where
  "inside_edge_example =
     mk_rss [mk_channel [mk_item [mk_sparkle ''edge'',
                                  mk_channel [mk_item [mk_sparkle ''stable''], mk_item []]]]]"

definition inside_stable_example :: xml where
  "inside_stable_example =
     mk_rss [mk_channel [mk_item [mk_sparkle ''stable'',
                                  mk_channel [mk_item [mk_sparkle ''edge'']]]]]"

section \<open>Correctness of the filter\<close>

subsection \<open>The loops on any store\<close>

text \<open>
  Removing an item changes the child list of a channel object only, and drops a child
  tagged \<^verbatim>\<open>item\<close>; so what \<^verbatim>\<open>item.find\<close> returns and the text it reads are the same
  before and after, for every object. The loop over the items of one channel, taken from
  its child list beforehand, therefore drops every removable child and never misses one.
\<close>

lemma sparkle_channel_not_item: "sparkle_channel \<noteq> ''item''"
  by (simp add: sparkle_channel_def)

lemma find_remove1: "\<not> Q y \<Longrightarrow> List.find Q (remove1 y xs) = List.find Q xs"
  by (induction xs) auto

lemma find_filter: "(\<And>x. Q x \<Longrightarrow> R x) \<Longrightarrow> List.find Q (filter R xs) = List.find Q xs"
  by (induction xs) auto

lemma item_matches_children_upd:
  assumes "List.find (\<lambda>k. tag (h k) = sparkle_channel) zs
         = List.find (\<lambda>k. tag (h k) = sparkle_channel) (children (h p))"
  shows "item_matches (h(p := (h p)\<lparr>children := zs\<rparr>)) c x = item_matches h c x"
proof -
  let ?h = "h(p := (h p)\<lparr>children := zs\<rparr>)"
  have tg: "\<And>k. tag (?h k) = tag (h k)" and tx: "\<And>k. text' (?h k) = text' (h k)"
    by simp_all
  have "Element_find ?h x sparkle_channel = Element_find h x sparkle_channel"
  proof (cases "x = p")
    case True
    then have "children (?h x) = zs" by simp
    with True assms show ?thesis unfolding Element_find_def by (simp only: tg)
  next
    case False
    then have "children (?h x) = children (h x)" by simp
    then show ?thesis unfolding Element_find_def by (simp only: tg)
  qed
  then show ?thesis
    unfolding item_matches_def by (simp only: tx)
qed

lemma removable_children_upd:
  assumes "List.find (\<lambda>k. tag (h k) = sparkle_channel) zs
         = List.find (\<lambda>k. tag (h k) = sparkle_channel) (children (h p))"
  shows "removable (h(p := (h p)\<lparr>children := zs\<rparr>)) c = removable h c"
proof
  fix x
  show "removable (h(p := (h p)\<lparr>children := zs\<rparr>)) c x = removable h c x"
    unfolding removable_def using item_matches_children_upd [OF assms, of c x] by simp
qed

lemma removable_filter_upd:
  "removable (h(p := (h p)\<lparr>children := filter (\<lambda>x. \<not> removable h c x) (children (h p))\<rparr>)) c'
     = removable h c'"
  by (rule removable_children_upd, rule find_filter)
     (auto simp: removable_def sparkle_channel_not_item)

lemma items_loop_filter:
  assumes "children (h ch) = pre @ rest" and "\<forall>x\<in>set pre. \<not> removable h c x"
  shows "items_loop c ch (filter (\<lambda>k. tag (h k) = ''item'') rest) (h, n)
       = Inr (h(ch := (h ch)\<lparr>children := pre @ filter (\<lambda>x. \<not> removable h c x) rest\<rparr>),
              n + length (filter (removable h c) rest))"
  using assms
proof (induction rest arbitrary: h n pre)
  case Nil
  then have "h(ch := (h ch)\<lparr>children := pre\<rparr>) = h"
    by (metis append_Nil2 fun_upd_triv element.surjective element.update_convs(5))
  with Nil show ?case by simp
next
  case (Cons y rest)
  show ?case
  proof (cases "removable h c y")
    case True
    then have ty: "tag (h y) = ''item''" and my: "item_matches h c y"
      by (simp_all add: removable_def)
    from True Cons.prems have "y \<notin> set pre" by auto
    then have rm: "remove1 y (pre @ y # rest) = pre @ rest"
      by (simp add: remove1_append)
    define h' where "h' = h(ch := (h ch)\<lparr>children := pre @ rest\<rparr>)"
    have "List.find (\<lambda>k. tag (h k) = sparkle_channel) (remove1 y (children (h ch)))
        = List.find (\<lambda>k. tag (h k) = sparkle_channel) (children (h ch))"
      by (rule find_remove1) (simp add: ty sparkle_channel_not_item [symmetric])
    then have same: "removable h' c = removable h c"
      unfolding h'_def using removable_children_upd [of h "pre @ rest" ch c] Cons.prems(1) rm
      by simp
    have tags: "\<And>k. tag (h' k) = tag (h k)" by (simp add: h'_def)
    have "children (h' ch) = pre @ rest" by (simp add: h'_def)
    moreover have "\<forall>x\<in>set pre. \<not> removable h' c x" using Cons.prems(2) same by simp
    ultimately have IH: "items_loop c ch (filter (\<lambda>k. tag (h' k) = ''item'') rest) (h', Suc n)
       = Inr (h'(ch := (h' ch)\<lparr>children := pre @ filter (\<lambda>x. \<not> removable h' c x) rest\<rparr>),
              Suc n + length (filter (removable h' c) rest))"
      by (rule Cons.IH)
    have rem: "Element_remove h ch y = Inr h'"
      by (simp add: Element_remove_def Cons.prems(1) rm h'_def)
    have fin: "h'(ch := (h' ch)\<lparr>children := zs\<rparr>) = h(ch := (h ch)\<lparr>children := zs\<rparr>)" for zs
      by (simp add: h'_def)
    have "items_loop c ch (filter (\<lambda>k. tag (h k) = ''item'') (y # rest)) (h, n)
        = items_loop c ch (filter (\<lambda>k. tag (h k) = ''item'') rest) (h', Suc n)"
      by (simp add: ty my rem)
    also have "\<dots> = Inr (h(ch := (h ch)\<lparr>children := pre @ filter (\<lambda>x. \<not> removable h c x) rest\<rparr>),
              Suc n + length (filter (removable h c) rest))"
      using IH by (simp only: tags same fin)
    finally show ?thesis using True by (simp add: ty fun_eq_iff)
  next
    case False
    have pre': "children (h ch) = (pre @ [y]) @ rest" using Cons.prems(1) by simp
    have np: "\<forall>x\<in>set (pre @ [y]). \<not> removable h c x" using Cons.prems(2) False by simp
    have IH: "items_loop c ch (filter (\<lambda>k. tag (h k) = ''item'') rest) (h, n)
       = Inr (h(ch := (h ch)\<lparr>children := (pre @ [y]) @ filter (\<lambda>x. \<not> removable h c x) rest\<rparr>),
              n + length (filter (removable h c) rest))"
      by (rule Cons.IH [OF pre' np])
    show ?thesis
    proof (cases "tag (h y) = ''item''")
      case True
      with False have "\<not> item_matches h c y" by (simp add: removable_def)
      with IH False True show ?thesis by (simp add: fun_eq_iff)
    next
      case False': False
      with IH False show ?thesis by (simp add: fun_eq_iff)
    qed
  qed
qed

lemma items_loop_channel:
  "items_loop c ch (Element_findall h ch ''item'') (h, n)
     = Inr (h(ch := (h ch)\<lparr>children := filter (\<lambda>x. \<not> removable h c x) (children (h ch))\<rparr>),
            n + length (filter (removable h c) (children (h ch))))"
  using items_loop_filter [of h ch "[]" "children (h ch)" c n]
  by (simp add: Element_findall_def)

lemma channels_loop_filtered:
  "distinct chs \<Longrightarrow>
   channels_loop c chs (h, n)
     = Inr (filtered h c (set chs),
            n + sum_list (map (\<lambda>ch. length (filter (removable h c) (children (h ch)))) chs))"
proof (induction chs arbitrary: h n)
  case Nil
  show ?case by (simp add: filtered_def)
next
  case (Cons ch chs)
  define h1 where
    "h1 = h(ch := (h ch)\<lparr>children := filter (\<lambda>x. \<not> removable h c x) (children (h ch))\<rparr>)"
  have same: "removable h1 c = removable h c"
    unfolding h1_def by (rule removable_filter_upd)
  from Cons.prems have d: "distinct chs" and nin: "ch \<notin> set chs" by simp_all
  have kids: "\<And>x. x \<in> set chs \<Longrightarrow> children (h1 x) = children (h x)"
    using nin by (auto simp: h1_def)
  have cell: "h1 ch = (h ch)\<lparr>children := filter (\<lambda>x. \<not> removable h c x) (children (h ch))\<rparr>"
    and other: "\<And>x. x \<noteq> ch \<Longrightarrow> h1 x = h x"
    and inchs: "\<And>x. x \<in> set chs \<Longrightarrow> h1 x = h x"
    using nin by (auto simp: h1_def)
  have heap: "filtered h1 c (set chs) = filtered h c (set (ch # chs))"
    using nin by (auto simp: filtered_def same fun_eq_iff cell other inchs)
  have sum: "sum_list (map (\<lambda>ch. length (filter (removable h1 c) (children (h1 ch)))) chs)
           = sum_list (map (\<lambda>ch. length (filter (removable h c) (children (h ch)))) chs)"
    by (rule arg_cong [where f = sum_list], rule map_cong) (simp_all add: same kids)
  show ?case
    using Cons.IH [OF d, of h1 "n + length (filter (removable h c) (children (h ch)))"]
    by (simp add: items_loop_channel h1_def [symmetric] heap sum)
qed

subsection \<open>Parsing builds a tree in the store\<close>

text \<open>
  Allocation from \<open>allocated s\<close> on fills the addresses up to the new \<open>allocated\<close>, leaves
  the older cells alone, and no object is reached twice.
\<close>

lemma reps_Nil [simp]: "reps h [] ks = (ks = [])" "reps h as [] = (as = [])"
  by (cases ks; simp) (cases as; simp)

lemma rep_frame:
  "(\<forall>b\<in>set (addrs h a t). h' b = h b) \<Longrightarrow> rep h' a t = rep h a t \<and> addrs h' a t = addrs h a t"
  "(\<forall>b\<in>set (addrs_list h as ks). h' b = h b) \<Longrightarrow>
     reps h' as ks = reps h as ks \<and> addrs_list h' as ks = addrs_list h as ks"
  by (induction h a t and h as ks rule: addrs_addrs_list.induct) auto

lemma alloc_props:
  "alloc t s = (a, s') \<Longrightarrow>
     allocated s' = allocated s + n_elements t \<and> (\<forall>b<allocated s. cells s' b = cells s b)
     \<and> rep (cells s') a t \<and> set (addrs (cells s') a t) \<subseteq> {allocated s..<allocated s'}
     \<and> distinct (addrs (cells s') a t)"
  "alloc_list ks s = (as, s') \<Longrightarrow>
     allocated s' = allocated s + sum_list (map n_elements ks) \<and> (\<forall>b<allocated s. cells s' b = cells s b)
     \<and> reps (cells s') as ks \<and> set (addrs_list (cells s') as ks) \<subseteq> {allocated s..<allocated s'}
     \<and> distinct (addrs_list (cells s') as ks)"
proof (induction t s and ks s arbitrary: a s' and as s' rule: alloc_alloc_list.induct)
  case (1 tg ats tx ta ks s)
  obtain as s1 where al: "alloc_list ks s = (as, s1)" by (cases "alloc_list ks s")
  note IH = "1.IH" [OF al]
  let ?cell = "\<lparr>tag = tg, attrib = ats, text' = tx, tail = ta, children = as\<rparr>"
  let ?h = "(cells s1)(allocated s1 := ?cell)"
  from "1.prems" al have a: "a = allocated s1" and s': "s' = \<lparr>cells = ?h, allocated = Suc (allocated s1)\<rparr>"
    by auto
  from IH have top1: "allocated s1 = allocated s + sum_list (map n_elements ks)"
    and old1: "\<forall>b<allocated s. cells s1 b = cells s b"
    and r1: "reps (cells s1) as ks"
    and sub: "set (addrs_list (cells s1) as ks) \<subseteq> {allocated s..<allocated s1}"
    and d1: "distinct (addrs_list (cells s1) as ks)"
    by blast+
  have "reps ?h as ks = reps (cells s1) as ks
      \<and> addrs_list ?h as ks = addrs_list (cells s1) as ks"
    by (rule rep_frame(2)) (use sub in auto)
  with r1 have reps': "reps ?h as ks"
    and addrs': "addrs_list ?h as ks = addrs_list (cells s1) as ks"
    by blast+
  have le: "allocated s \<le> allocated s1" using top1 by simp
  have notin: "allocated s1 \<notin> set (addrs_list (cells s1) as ks)" using sub by auto
  have sub': "set (addrs_list (cells s1) as ks) \<subseteq> {allocated s..<Suc (allocated s1)}" using sub by auto
  show ?case
    unfolding a s' using top1 old1 le notin sub' d1 reps' addrs' by (simp add: fun_upd_def)
next
  case (2 s)
  then show ?case by simp
next
  case (3 k ks s)
  obtain a1 s1 where al1: "alloc k s = (a1, s1)" by (cases "alloc k s")
  obtain as2 s2 where al2: "alloc_list ks s1 = (as2, s2)" by (cases "alloc_list ks s1")
  note IH1 = "3.IH"(1) [OF al1]
  note IH2 = "3.IH"(2) [OF al1 [symmetric] al2]
  from "3.prems" al1 al2 have as: "as = a1 # as2" and s': "s' = s2" by auto
  from IH1 have top1: "allocated s1 = allocated s + n_elements k"
    and old1: "\<forall>b<allocated s. cells s1 b = cells s b"
    and r1: "rep (cells s1) a1 k"
    and sub1: "set (addrs (cells s1) a1 k) \<subseteq> {allocated s..<allocated s1}"
    and d1: "distinct (addrs (cells s1) a1 k)"
    by blast+
  from IH2 have top2: "allocated s2 = allocated s1 + sum_list (map n_elements ks)"
    and old2: "\<forall>b<allocated s1. cells s2 b = cells s1 b"
    and r2: "reps (cells s2) as2 ks"
    and sub2: "set (addrs_list (cells s2) as2 ks) \<subseteq> {allocated s1..<allocated s2}"
    and d2: "distinct (addrs_list (cells s2) as2 ks)"
    by blast+
  have "rep (cells s2) a1 k = rep (cells s1) a1 k
      \<and> addrs (cells s2) a1 k = addrs (cells s1) a1 k"
    by (rule rep_frame(1)) (use sub1 old2 in auto)
  with r1 have rep1: "rep (cells s2) a1 k"
    and addrs1: "addrs (cells s2) a1 k = addrs (cells s1) a1 k"
    by blast+
  have le: "allocated s \<le> allocated s1" "allocated s1 \<le> allocated s2" using top1 top2 by simp_all
  have old: "\<forall>b<allocated s. cells s2 b = cells s b" using old1 old2 le by auto
  have disj: "set (addrs (cells s1) a1 k) \<inter> set (addrs_list (cells s2) as2 ks) = {}"
    using sub1 sub2 by fastforce
  have subs: "set (addrs (cells s1) a1 k) \<subseteq> {allocated s..<allocated s2}"
    "set (addrs_list (cells s2) as2 ks) \<subseteq> {allocated s..<allocated s2}"
    using sub1 sub2 le by auto
  show ?case
    unfolding as s' using top1 top2 old disj subs d1 d2 r2 rep1 addrs1 by simp
qed

subsection \<open>Walking and writing a tree\<close>

text \<open>
  With as many steps as the tree has elements, the walk and the serializer reach every
  object of the tree.
\<close>

lemma reps_list_all2: "reps h as ks = list_all2 (rep h) as ks"
proof (induction as arbitrary: ks)
  case Nil
  show ?case by auto
next
  case (Cons a as)
  then show ?case by (cases ks) simp_all
qed

lemma n_elements_pos: "0 < n_elements t"
  by (cases t) simp

lemma iter_rep:
  "rep h a t \<Longrightarrow> n_elements t \<le> n \<Longrightarrow>
     Element_iter n h a tg = Some (filter (\<lambda>x. tag (h x) = tg) (addrs h a t))"
  "reps h as ks \<Longrightarrow> sum_list (map n_elements ks) \<le> n \<Longrightarrow>
     \<exists>found. those (map (\<lambda>k. Element_iter n h k tg) as) = Some found
       \<and> concat found = filter (\<lambda>x. tag (h x) = tg) (addrs_list h as ks)"
proof (induction h a t and h as ks arbitrary: n and n rule: rep_reps.induct)
  case (1 h a tg' ats tx ta ks)
  from "1.prems"(2) obtain m where n: "n = Suc m" and le: "sum_list (map n_elements ks) \<le> m"
    by (cases n) auto
  from "1.prems"(1) have "reps h (children (h a)) ks" and tg': "tag (h a) = tg'" by simp_all
  from "1.IH" [OF this(1) le] obtain found where
    "those (map (\<lambda>k. Element_iter m h k tg) (children (h a))) = Some found"
    "concat found = filter (\<lambda>x. tag (h x) = tg) (addrs_list h (children (h a)) ks)"
    by blast
  then show ?case by (simp add: n)
next
  case (2 h)
  then show ?case by simp
next
  case (3 h a as k ks)
  from "3.prems" have r1: "rep h a k" and r2: "reps h as ks"
    and le1: "n_elements k \<le> n" and le2: "sum_list (map n_elements ks) \<le> n"
    by simp_all
  from "3.IH"(2) [OF r2 le2] obtain found where
    "those (map (\<lambda>k. Element_iter n h k tg) as) = Some found"
    "concat found = filter (\<lambda>x. tag (h x) = tg) (addrs_list h as ks)"
    by blast
  with "3.IH"(1) [OF r1 le1] show ?case by simp
qed simp_all

lemma serialize_rep:
  "rep h a t \<Longrightarrow> n_elements t \<le> n \<Longrightarrow> serialize n h a = Some t"
  "reps h as ks \<Longrightarrow> sum_list (map n_elements ks) \<le> n \<Longrightarrow>
     those (map (serialize n h) as) = Some ks"
proof (induction h a t and h as ks arbitrary: n and n rule: rep_reps.induct)
  case (1 h a tg' ats tx ta ks)
  from "1.prems"(2) obtain m where n: "n = Suc m" and le: "sum_list (map n_elements ks) \<le> m"
    by (cases n) auto
  from "1.prems"(1) have r: "reps h (children (h a)) ks" by simp
  from "1.IH" [OF r le] "1.prems"(1) show ?case by (simp add: n)
next
  case (2 h)
  then show ?case by simp
next
  case (3 h a as k ks)
  from "3.prems" have r1: "rep h a k" and r2: "reps h as ks"
    and le1: "n_elements k \<le> n" and le2: "sum_list (map n_elements ks) \<le> n"
    by simp_all
  from "3.IH"(1) [OF r1 le1] "3.IH"(2) [OF r2 le2] show ?case by simp
qed simp_all

subsection \<open>The loops on a parsed tree\<close>

lemma rep_fields:
  "rep h a t \<Longrightarrow> tag (h a) = xtag t \<and> attrib (h a) = xattrib t \<and> text' (h a) = xtext t
     \<and> tail (h a) = xtail t \<and> reps h (children (h a)) (xkids t)"
  by (cases t) simp

lemma find_reps:
  "reps h as ks \<Longrightarrow>
     (case List.find (\<lambda>k. tag (h k) = tg) as of
        None \<Rightarrow> List.find (\<lambda>k. xtag k = tg) ks = None
      | Some s \<Rightarrow> \<exists>sk. List.find (\<lambda>k. xtag k = tg) ks = Some sk \<and> rep h s sk)"
proof (induction as arbitrary: ks)
  case Nil
  then show ?case by simp
next
  case (Cons a as)
  then obtain k ks' where ks: "ks = k # ks'" and r: "rep h a k" and rs: "reps h as ks'"
    by (cases ks) auto
  from rep_fields [OF r] have "tag (h a) = xtag k" by simp
  with Cons.IH [OF rs] r show ?case by (auto simp: ks split: option.splits)
qed

lemma removable_rep: "rep h x k \<Longrightarrow> removable h c x = matching_item c k"
proof -
  assume r: "rep h x k"
  note f = rep_fields [OF r]
  from f have rs: "reps h (children (h x)) (xkids k)" by simp
  show ?thesis
  proof (cases "List.find (\<lambda>k. tag (h k) = sparkle_channel) (children (h x))")
    case None
    with find_reps [OF rs, of sparkle_channel] f show ?thesis
      by (simp add: removable_def item_matches_def Element_find_def matching_item_def
            first_sparkle_channel_def)
  next
    case (Some s)
    with find_reps [OF rs, of sparkle_channel] obtain sk where
      sk: "List.find (\<lambda>k. xtag k = sparkle_channel) (xkids k) = Some sk" and r': "rep h s sk"
      by auto
    from rep_fields [OF r'] have "text' (h s) = xtext sk" by simp
    with Some sk f show ?thesis
      by (simp add: removable_def item_matches_def Element_find_def matching_item_def
            first_sparkle_channel_def)
  qed
qed

lemma list_all2_filter:
  "list_all2 R xs ys \<Longrightarrow> (\<And>x y. R x y \<Longrightarrow> P x = Q y) \<Longrightarrow>
     list_all2 R (filter P xs) (filter Q ys)"
  by (induction rule: list_all2_induct) auto

lemma rep_filtered:
  "rep h a t \<Longrightarrow> (\<forall>x\<in>set (addrs h a t). (x \<in> C) = (tag (h x) = ''channel'')) \<Longrightarrow>
     rep (filtered h c C) a (without_items c t)"
  "reps h as ks \<Longrightarrow> (\<forall>x\<in>set (addrs_list h as ks). (x \<in> C) = (tag (h x) = ''channel'')) \<Longrightarrow>
     reps (filtered h c C) as (map (without_items c) ks)"
proof (induction h a t and h as ks rule: rep_reps.induct)
  case (1 h a tg ats tx ta ks)
  let ?h = "filtered h c C"
  let ?as = "children (h a)"
  from "1.prems" have r: "reps h ?as ks" and tg: "tag (h a) = tg"
    and C: "(a \<in> C) = (tg = ''channel'')"
    and sub: "\<forall>x\<in>set (addrs_list h ?as ks). (x \<in> C) = (tag (h x) = ''channel'')"
    by auto
  have "list_all2 (\<lambda>x k. rep ?h x (without_items c k)) ?as ks"
    using "1.IH" [OF r sub] by (simp add: reps_list_all2 list_all2_map2)
  moreover have "list_all2 (rep h) ?as ks"
    using r by (simp add: reps_list_all2)
  ultimately have both: "list_all2 (\<lambda>x k. rep h x k \<and> rep ?h x (without_items c k)) ?as ks"
    by (simp add: list_all2_conv_all_nth)
  have kept: "list_all2 (\<lambda>x k. rep h x k \<and> rep ?h x (without_items c k))
          (filter (\<lambda>x. \<not> (tg = ''channel'' \<and> removable h c x)) ?as)
          (filter (\<lambda>k. \<not> (tg = ''channel'' \<and> matching_item c k)) ks)"
    by (rule list_all2_filter [OF both]) (auto simp: removable_rep)
  then have "list_all2 (\<lambda>x k. rep ?h x (without_items c k))
          (filter (\<lambda>x. \<not> (tg = ''channel'' \<and> removable h c x)) ?as)
          (filter (\<lambda>k. \<not> (tg = ''channel'' \<and> matching_item c k)) ks)"
    by (rule list_all2_mono) simp
  then have "reps ?h (filter (\<lambda>x. \<not> (tg = ''channel'' \<and> removable h c x)) ?as)
          (map (without_items c) (filter (\<lambda>k. \<not> (tg = ''channel'' \<and> matching_item c k)) ks))"
    by (simp add: reps_list_all2 list_all2_map2)
  moreover have "children (?h a) = filter (\<lambda>x. \<not> (tg = ''channel'' \<and> removable h c x)) ?as"
    using C by (simp add: filtered_def)
  moreover have "tag (?h a) = tag (h a)" "attrib (?h a) = attrib (h a)"
    "text' (?h a) = text' (h a)" "tail (?h a) = tail (h a)"
    by (simp_all add: filtered_def)
  ultimately show ?case using "1.prems"(1) by simp
next
  case (3 h a as k ks)
  then show ?case by simp
qed simp_all

lemma length_filter_reps:
  "reps h as ks \<Longrightarrow> length (filter (removable h c) as) = length (filter (matching_item c) ks)"
proof -
  assume "reps h as ks"
  then have "list_all2 (rep h) as ks" by (simp add: reps_list_all2)
  then have "list_all2 (rep h) (filter (removable h c) as) (filter (matching_item c) ks)"
    by (rule list_all2_filter) (rule removable_rep)
  then show ?thesis by (rule list_all2_lengthD)
qed

lemma count_rep:
  "rep h a t \<Longrightarrow>
     sum_list (map (\<lambda>ch. length (filter (removable h c) (children (h ch))))
                (filter (\<lambda>x. tag (h x) = ''channel'') (addrs h a t))) = removals c t"
  "reps h as ks \<Longrightarrow>
     sum_list (map (\<lambda>ch. length (filter (removable h c) (children (h ch))))
                (filter (\<lambda>x. tag (h x) = ''channel'') (addrs_list h as ks)))
       = sum_list (map (removals c) ks)"
proof (induction h a t and h as ks rule: rep_reps.induct)
  case (1 h a tg ats tx ta ks)
  from "1.prems" have r: "reps h (children (h a)) ks" and tg: "tag (h a) = tg" by simp_all
  from "1.IH" [OF r] length_filter_reps [OF r, of c] tg show ?case by simp
next
  case (3 h a as k ks)
  then show ?case by simp
qed simp_all

lemma removals_elements:
  "removals c t = length (concat (map (\<lambda>ch. filter (matching_item c) (xkids ch))
                     (filter (\<lambda>e. xtag e = ''channel'') (elements t))))"
proof (induction t)
  case (Element tg ats tx ta ks)
  have "sum_list (map (removals c) ks)
      = length (concat (map (\<lambda>ch. filter (matching_item c) (xkids ch))
                     (filter (\<lambda>e. xtag e = ''channel'') (concat (map elements ks)))))"
    using Element.IH by (induction ks) simp_all
  then show ?case by simp
qed

lemma n_elements_without: "n_elements (without_items c t) \<le> n_elements t"
proof (induction t)
  case (Element tg ats tx ta ks)
  have "sum_list (map n_elements (map (without_items c) (filter P ks)))
      \<le> sum_list (map n_elements ks)" for P
    using Element.IH by (induction ks) (auto intro: add_mono trans_le_add2)
  then show ?case by simp
qed

subsection \<open>The run on a well-formed file\<close>

lemma parsed_tree:
  assumes "alloc doc empty_store = (root, tree)"
  shows "allocated tree = n_elements doc" and "rep (cells tree) root doc"
    and "distinct (addrs (cells tree) root doc)"
  using alloc_props(1) [OF assms] by (simp_all add: empty_store_def)

lemma parsed_root:
  assumes "alloc doc empty_store = (root, tree)"
  shows "reps (cells tree) (children (cells tree root)) (xkids doc)"
    and "root \<notin> set (addrs_list (cells tree) (children (cells tree root)) (xkids doc))"
    and "distinct (addrs_list (cells tree) (children (cells tree root)) (xkids doc))"
  using parsed_tree(2,3) [OF assms] by (cases doc; simp)+

lemma parsed_channels:
  assumes "alloc doc empty_store = (root, tree)"
  shows "findall_descendants tree root ''channel''
       = Some (filter (\<lambda>x. tag (cells tree x) = ''channel'')
                 (addrs_list (cells tree) (children (cells tree root)) (xkids doc)))"
proof -
  let ?h = "cells tree"
  let ?below = "addrs_list ?h (children (?h root)) (xkids doc)"
  have "Element_iter (allocated tree) ?h root ''channel''
      = Some (filter (\<lambda>x. tag (?h x) = ''channel'') (addrs ?h root doc))"
    by (rule iter_rep(1)) (simp_all add: parsed_tree [OF assms])
  moreover have "addrs ?h root doc = root # ?below" by (cases doc) simp
  moreover have "filter (\<lambda>x. x \<noteq> root) (filter (\<lambda>x. tag (?h x) = ''channel'') ?below)
      = filter (\<lambda>x. tag (?h x) = ''channel'') ?below"
    using parsed_root(2) [OF assms] by (auto intro!: filter_cong)
  ultimately show ?thesis by (simp add: findall_descendants_def)
qed

lemma matching_items_removals:
  "length (matching_items c doc) = sum_list (map (removals c) (xkids doc))"
proof -
  have "sum_list (map (removals c) ks)
      = length (concat (map (\<lambda>ch. filter (matching_item c) (xkids ch))
                 (filter (\<lambda>e. xtag e = ''channel'') (concat (map elements ks)))))" for ks
    by (induction ks) (simp_all add: removals_elements)
  then show ?thesis by (simp add: matching_items_def feed_channels_def descendants_def)
qed

lemma remove_items_parsed:
  assumes "alloc doc empty_store = (root, tree)"
    and "findall_descendants tree root ''channel'' = Some channels"
  shows "remove_items c (root, tree)
       = Some (Inr (tree\<lparr>cells := filtered (cells tree) c (set channels)\<rparr>,
                    length (matching_items c doc)))"
proof -
  let ?h = "cells tree"
  let ?below = "addrs_list ?h (children (?h root)) (xkids doc)"
  from assms(2) parsed_channels [OF assms(1)]
  have chs: "channels = filter (\<lambda>x. tag (?h x) = ''channel'') ?below" by simp
  have d: "distinct channels" using parsed_root(3) [OF assms(1)] by (simp add: chs)
  have "sum_list (map (\<lambda>ch. length (filter (removable ?h c) (children (?h ch)))) channels)
      = length (matching_items c doc)"
    unfolding chs matching_items_removals by (rule count_rep(2)) (rule parsed_root(1) [OF assms(1)])
  with channels_loop_filtered [OF d, of c ?h 0] assms(2) show ?thesis
    by (simp add: remove_items_def)
qed

lemma written_document:
  assumes "alloc doc empty_store = (root, tree)"
    and "findall_descendants tree root ''channel'' = Some channels"
  shows "ET_write (tree\<lparr>cells := filtered (cells tree) c (set channels)\<rparr>) root
       = Some (write_document (filtered_document c doc))"
proof -
  let ?h = "cells tree"
  let ?h' = "filtered ?h c (set channels)"
  let ?as = "children (?h root)"
  let ?below = "addrs_list ?h ?as (xkids doc)"
  from assms(2) parsed_channels [OF assms(1)]
  have chs: "channels = filter (\<lambda>x. tag (?h x) = ''channel'') ?below" by simp
  have root: "root \<notin> set channels" using parsed_root(2) [OF assms(1)] by (simp add: chs)
  have "reps ?h' ?as (map (without_items c) (xkids doc))"
    by (rule rep_filtered(2) [OF parsed_root(1) [OF assms(1)]]) (simp add: chs)
  moreover have "?h' root = ?h root" using root by (simp add: filtered_def)
  ultimately have "rep ?h' root (filtered_document c doc)"
    using rep_fields [OF parsed_tree(2) [OF assms(1)]] by (simp add: filtered_document_def)
  moreover have "n_elements (filtered_document c doc) \<le> allocated tree"
  proof -
    have "sum_list (map n_elements (map (without_items c) ks)) \<le> sum_list (map n_elements ks)" for ks
      by (induction ks) (auto intro: add_mono n_elements_without)
    then show ?thesis
      by (cases doc) (simp add: filtered_document_def parsed_tree(1) [OF assms(1)])
  qed
  ultimately show ?thesis
    unfolding ET_write_def using serialize_rep(1) by simp
qed

lemma try_body_wellformed:
  assumes "fs path = Some (Wellformed d)"
  shows "try_body path c fs
       = Some (Inr (write_document (filtered_document c (read_document d)),
                    length (matching_items c (read_document d))))"
proof -
  obtain root tree where al: "alloc (read_document d) empty_store = (root, tree)"
    by (cases "alloc (read_document d) empty_store")
  from parsed_channels [OF al] obtain channels where
    chs: "findall_descendants tree root ''channel'' = Some channels" by blast
  show ?thesis
    using assms al remove_items_parsed [OF al chs, of c] written_document [OF al chs, of c]
    by (simp add: try_body_def ET_parse_def)
qed

lemma clean_appcast_wellformed:
  assumes "fs path = Some (Wellformed d)"
  shows "clean_appcast path c fs
       = Some \<lparr>stdout = [removed_message (length (matching_items c (read_document d))) c path],
               stderr = [], status = 0,
               files = fs(path \<mapsto>
                 Wellformed (write_document (filtered_document c (read_document d)))),
               trace = [Opened_read path, Opened_write path]\<rparr>"
  using try_body_wellformed [of fs path d c] assms by (simp add: clean_appcast_def)

subsection \<open>Facts about the filter on documents\<close>

lemma xtag_without [simp]: "xtag (without_items c t) = xtag t"
  and xtext_without [simp]: "xtext (without_items c t) = xtext t"
  and xattrib_without [simp]: "xattrib (without_items c t) = xattrib t"
  and xtail_without [simp]: "xtail (without_items c t) = xtail t"
  by (cases t; simp)+

lemma find_map: "List.find P (map f xs) = map_option f (List.find (\<lambda>x. P (f x)) xs)"
  by (induction xs) simp_all

lemma matching_without [simp]: "matching_item c (without_items c' k) = matching_item c k"
proof (cases k)
  case (Element tg ats tx ta ks)
  show ?thesis
  proof (cases "tg = ''item''")
    case True
    then have "xkids (without_items c' k) = map (without_items c') ks"
      by (simp add: Element)
    then show ?thesis
      by (simp add: matching_item_def first_sparkle_channel_def Element find_map
            split: option.splits)
  next
    case False
    then show ?thesis by (simp add: matching_item_def Element)
  qed
qed

lemma without_idem: "without_items c (without_items c t) = without_items c t"
proof (induction t)
  case (Element tg ats tx ta ks)
  let ?P = "\<lambda>k. \<not> (tg = ''channel'' \<and> matching_item c k)"
  have "map (without_items c) (filter ?P (map (without_items c) (filter ?P ks')))
      = map (without_items c) (filter ?P ks')"
    if "set ks' \<subseteq> set ks" for ks'
    using that
  proof (induction ks')
    case Nil
    show ?case by simp
  next
    case (Cons k ks')
    then have "k \<in> set ks" and "set ks' \<subseteq> set ks" by simp_all
    with Cons.IH Element.IH [of k] show ?case by simp
  qed
  from this [of ks] show ?case by simp
qed

lemma filtered_document_idem:
  "filtered_document c (filtered_document c doc) = filtered_document c doc"
  by (simp add: filtered_document_def without_idem)

lemma elements_self: "t \<in> set (elements t)"
  by (cases t) simp

lemma kids_in_elements:
  "e \<in> set (elements t) \<Longrightarrow> k \<in> set (xkids e) \<Longrightarrow> k \<in> set (elements t)"
proof (induction t)
  case (Element tg ats tx ta ks)
  show ?case
  proof (cases "e = Element tg ats tx ta ks")
    case True
    with Element.prems(2) have "k \<in> set ks" by simp
    then show ?thesis using elements_self [of k] by auto
  next
    case False
    with Element.prems(1) obtain t' where "t' \<in> set ks" "e \<in> set (elements t')" by auto
    with Element.IH Element.prems(2) show ?thesis by auto
  qed
qed

lemma channels_of_without:
  "e' \<in> set (elements (without_items c t)) \<Longrightarrow> xtag e' = ''channel'' \<Longrightarrow>
     k' \<in> set (xkids e') \<Longrightarrow> \<not> matching_item c k'"
proof (induction t)
  case (Element tg ats tx ta ks)
  let ?kept = "filter (\<lambda>k. \<not> (tg = ''channel'' \<and> matching_item c k)) ks"
  show ?case
  proof (cases "e' = without_items c (Element tg ats tx ta ks)")
    case True
    with Element.prems(2) have "tg = ''channel''" by simp
    with True Element.prems(3) obtain k where "k \<in> set ks" "\<not> matching_item c k"
      "k' = without_items c k" by auto
    then show ?thesis by simp
  next
    case False
    with Element.prems(1) obtain t' where "t' \<in> set ?kept"
      "e' \<in> set (elements (without_items c t'))" by auto
    with Element.IH [of t'] Element.prems(2,3) show ?thesis by auto
  qed
qed

lemma none_left: "matching_items c (filtered_document c doc) = []"
proof -
  have "\<not> matching_item c k'"
    if "e' \<in> set (feed_channels (filtered_document c doc))" "k' \<in> set (xkids e')" for e' k'
  proof -
    from that(1) obtain t where "t \<in> set (xkids doc)"
      "e' \<in> set (elements (without_items c t))" "xtag e' = ''channel''"
      by (auto simp: feed_channels_def descendants_def filtered_document_def)
    with that(2) show ?thesis by (rule_tac channels_of_without)
  qed
  then show ?thesis
    by (auto simp: matching_items_def filter_empty_conv)
qed

lemma without_nothing:
  "(\<And>e k. e \<in> set (elements t) \<Longrightarrow> xtag e = ''channel'' \<Longrightarrow> k \<in> set (xkids e) \<Longrightarrow>
      \<not> matching_item c k) \<Longrightarrow> without_items c t = t"
proof (induction t)
  case (Element tg ats tx ta ks)
  have keep: "filter (\<lambda>k. \<not> (tg = ''channel'' \<and> matching_item c k)) ks = ks"
    using Element.prems [of "Element tg ats tx ta ks"] by (auto intro!: filter_True)
  have "without_items c k = k" if "k \<in> set ks" for k
    using that Element.prems by (intro Element.IH) auto
  then have "map (without_items c) ks = ks" by (simp add: map_idI)
  with keep show ?case by simp
qed

lemma nothing_to_remove:
  assumes "matching_items c doc = []"
  shows "filtered_document c doc = doc"
proof -
  have "without_items c t = t" if "t \<in> set (xkids doc)" for t
  proof (rule without_nothing)
    fix e k
    assume "e \<in> set (elements t)" "xtag e = ''channel''" "k \<in> set (xkids e)"
    with that have "e \<in> set (feed_channels doc)"
      by (auto simp: feed_channels_def descendants_def)
    with assms \<open>k \<in> set (xkids e)\<close> show "\<not> matching_item c k"
      by (auto simp: matching_items_def filter_empty_conv)
  qed
  then have "map (without_items c) (xkids doc) = xkids doc" by (simp add: map_idI)
  then show ?thesis by (cases doc) (simp add: filtered_document_def)
qed

lemma only_drops_without:
  "only_drops (removed_item c) t (without_items c t)"
proof (induction t)
  case (Element tg ats tx ta ks)
  have "only_drops_list (removed_item c) tg ks'
      (map (without_items c) (filter (\<lambda>k. \<not> (tg = ''channel'' \<and> matching_item c k)) ks'))"
    if "set ks' \<subseteq> set ks" for ks'
    using that Element.IH by (induction ks') (auto simp: removed_item_def)
  from this [of ks] show ?case by simp
qed

lemma only_drops_filtered_document:
  "only_drops_below (removed_item c) doc (filtered_document c doc)"
  by (simp add: only_drops_below_def filtered_document_def list_all2_map2
        list_all2_same only_drops_without)

subsection \<open>The elements that are kept\<close>

lemma kept_self: "t \<in> set (kept c t)"
  by (cases t) simp

lemma kept_child_written:
  "parent \<in> set (kept c t) \<Longrightarrow> e \<in> set (xkids parent) \<Longrightarrow> \<not> matching_item c e \<Longrightarrow>
     without_items c e \<in> set (elements (without_items c t))"
proof (induction t)
  case (Element tg ats tx ta ks)
  let ?kept = "filter (\<lambda>k. \<not> (tg = ''channel'' \<and> matching_item c k)) ks"
  show ?case
  proof (cases "parent = Element tg ats tx ta ks")
    case True
    with Element.prems(2,3) have "e \<in> set ?kept" by simp
    then have "without_items c e \<in> set (map (without_items c) ?kept)" by simp
    then obtain k' where "k' \<in> set (map (without_items c) ?kept)" "without_items c e = k'"
      by simp
    with elements_self [of k'] show ?thesis by auto
  next
    case False
    with Element.prems(1) obtain t' where t': "t' \<in> set ?kept" "parent \<in> set (kept c t')"
      by (auto simp: removed_item_def)
    then have "t' \<in> set ks" by simp
    from Element.IH [OF this t'(2) Element.prems(2,3)] t'(1) show ?thesis by auto
  qed
qed

lemma kept_child_in_filtered_document:
  assumes "parent \<in> set (kept_elements c doc)" and "e \<in> set (xkids parent)"
    and "\<not> matching_item c e"
  shows "without_items c e \<in> set (elements (filtered_document c doc))"
proof (cases "parent = doc")
  case True
  with assms(2) have "without_items c e \<in> set (xkids (filtered_document c doc))"
    by (simp add: filtered_document_def)
  with elements_self [of "filtered_document c doc"] show ?thesis
    by (rule kids_in_elements)
next
  case False
  with assms(1) obtain t where t: "t \<in> set (xkids doc)" "parent \<in> set (kept c t)"
    by (auto simp: kept_elements_def)
  from kept_child_written [OF t(2) assms(2,3)] t(1)
  have "without_items c e \<in> set (concat (map elements (xkids (filtered_document c doc))))"
    by (auto simp: filtered_document_def)
  then show ?thesis by (cases "filtered_document c doc") auto
qed

subsection \<open>Reading back what was written\<close>

lemma read_write_cdata: "CR \<notin> set s \<Longrightarrow> read_cdata (write_cdata s) = s"
proof (induction s rule: induct_list012)
  case 1
  show ?case by (simp add: write_cdata_def)
next
  case (2 x)
  then show ?case by (simp add: write_cdata_def)
next
  case (3 x y zs)
  then show ?case
    by (cases "x = CHR ''&'' \<or> x = CHR ''<'' \<or> x = CHR ''>''";
        cases "y = CHR ''&'' \<or> y = CHR ''<'' \<or> y = CHR ''>''")
       (auto simp: write_cdata_def)
qed

lemma write_cdata_Nil: "write_cdata s = [] \<longleftrightarrow> s = []"
  by (simp add: write_cdata_def)

lemma read_cdata_Nil: "read_cdata d = [] \<longleftrightarrow> d = []"
  by (induction d rule: read_cdata.induct) auto

lemma read_write_text:
  "no_cr t \<Longrightarrow> t \<noteq> Some [] \<Longrightarrow> read_text (write_text t) = t"
  by (cases t) (auto simp: read_text_def write_text_def no_cr_def read_write_cdata write_cdata_Nil)

lemma read_write_element:
  "cr_free t \<Longrightarrow> reported t \<Longrightarrow> read_element (write_element t) = t"
proof (induction t)
  case (Element tg ats tx ta ks)
  then have "map (\<lambda>k. read_element (write_element k)) ks = ks"
    by (intro map_idI) (auto simp: list_all_iff)
  with Element.prems show ?case by (simp add: read_write_text comp_def)
qed

lemma read_write_document:
  "cr_free t \<Longrightarrow> reported t \<Longrightarrow> xtail t = None \<Longrightarrow> read_document (write_document t) = t"
  by (cases t) (simp add: read_document_def write_document_def read_write_element
      del: write_element.simps)

lemma reported_read_element: "reported (read_element e)"
  by (induction e) (auto simp: read_text_def list_all_iff read_cdata_Nil)

lemma reported_read_document: "reported (read_document d)" "xtail (read_document d) = None"
  using reported_read_element [of "root_element d"]
  by (cases "read_element (root_element d)"; simp add: read_document_def)+

lemma cr_free_without: "cr_free t \<Longrightarrow> cr_free (without_items c t)"
  by (induction t) (auto simp: list_all_iff)

lemma reported_without: "reported t \<Longrightarrow> reported (without_items c t)"
  by (induction t) (auto simp: list_all_iff)

lemma filtered_document_readable:
  assumes "cr_free t" and "reported t" and "xtail t = None"
  shows "cr_free (filtered_document c t)" and "reported (filtered_document c t)"
    and "xtail (filtered_document c t) = None"
  using assms
  by (cases t; simp add: filtered_document_def list_all_iff cr_free_without reported_without)+

subsection \<open>The examples and the failing runs\<close>

lemmas example_defs =
  spec_example_def spec_example_filtered_def two_sparkle_example_def root_channel_example_def
  mk_rss_def mk_channel_def mk_item_def mk_sparkle_def
  matching_items_def feed_channels_def descendants_def filtered_document_def
  matching_item_def first_sparkle_channel_def sparkle_channel_def SPARKLE_NS_def

lemma spec_example_read: "read_document (write_document spec_example) = spec_example"
  by code_simp

lemma spec_example_file:
  "[''appcast.xml'' \<mapsto> Wellformed (write_document spec_example)] ''appcast.xml''
     = Some (Wellformed (write_document spec_example))"
  by simp

lemma spec_example_run:
  "clean_appcast ''appcast.xml'' ''edge'' [''appcast.xml'' \<mapsto> Wellformed (write_document spec_example)]
     = Some \<lparr>stdout = [removed_message 2 ''edge'' ''appcast.xml''], stderr = [], status = 0,
             files = [''appcast.xml'' \<mapsto> Wellformed (write_document spec_example_filtered)],
             trace = [Opened_read ''appcast.xml'', Opened_write ''appcast.xml'']\<rparr>"
proof -
  have "length (matching_items ''edge'' spec_example) = 2"
    by (simp add: example_defs)
  moreover have "filtered_document ''edge'' spec_example = spec_example_filtered"
    by (simp add: example_defs)
  ultimately show ?thesis
    using clean_appcast_wellformed
      [of "[''appcast.xml'' \<mapsto> Wellformed (write_document spec_example)]" "''appcast.xml''"
          "write_document spec_example" "''edge''"]
    by (simp add: spec_example_read)
qed

lemma spec_example_body:
  "try_body ''appcast.xml'' ''edge'' [''appcast.xml'' \<mapsto> Wellformed (write_document spec_example)]
     = Some (Inr (write_document spec_example_filtered, 2))"
  by code_simp

lemma successful_run:
  assumes "clean_appcast path c fs = Some r" and "status r = 0"
  obtains d where "fs path = Some (Wellformed d)"
proof (cases "fs path")
  case None
  with assms show ?thesis
    by (auto simp: clean_appcast_def try_body_def ET_parse_def failure_def)
next
  case (Some v)
  show ?thesis
  proof (cases v)
    case (Wellformed d)
    with Some that show ?thesis by simp
  next
    case (Malformed e)
    with Some assms show ?thesis
      by (auto simp: clean_appcast_def try_body_def ET_parse_def failure_def)
  qed
qed

lemma no_channel_text_no_match:
  assumes "\<forall>e\<in>set (elements doc). xtag e = ''item'' \<longrightarrow>
            (\<forall>s\<in>set (xkids e). xtag s = sparkle_channel \<longrightarrow> xtext s \<noteq> Some c)"
  shows "matching_items c doc = []"
proof -
  have "\<not> matching_item c e" if "ch \<in> set (feed_channels doc)" "e \<in> set (xkids ch)" for ch e
  proof
    assume m: "matching_item c e"
    from that(1) have "ch \<in> set (elements doc)"
      by (cases doc) (auto simp: feed_channels_def descendants_def)
    with that(2) have "e \<in> set (elements doc)" using kids_in_elements [of ch doc e] by simp
    moreover from m obtain s where "xtag e = ''item''"
      "List.find (\<lambda>k. xtag k = sparkle_channel) (xkids e) = Some s" "xtext s = Some c"
      by (auto simp: matching_item_def first_sparkle_channel_def split: option.splits)
    moreover from this(2) have "s \<in> set (xkids e)" "xtag s = sparkle_channel"
      by (auto simp: find_Some_iff)
    ultimately show False using assms by blast
  qed
  then show ?thesis by (auto simp: matching_items_def filter_empty_conv)
qed

subsection \<open>The parsed tree of a file\<close>

lemma parsed_file:
  assumes "ET_parse fs path = Inr (root, tree)"
  obtains d where "fs path = Some (Wellformed d)"
    and "alloc (read_document d) empty_store = (root, tree)"
  using assms by (auto simp: ET_parse_def split: option.splits content.splits)

lemma remove_items_file:
  assumes "ET_parse fs path = Inr (root, tree)"
  obtains channels where "findall_descendants tree root ''channel'' = Some channels"
    and "\<forall>ch\<in>set channels. tag (cells tree ch) = ''channel''"
    and "remove_items c (root, tree)
       = Some (Inr (tree\<lparr>cells := filtered (cells tree) c (set channels)\<rparr>,
                    length (filter (removable (cells tree) c)
                      (concat (map (\<lambda>ch. children (cells tree ch)) channels)))))"
proof -
  from assms obtain d where al: "alloc (read_document d) empty_store = (root, tree)"
    by (rule parsed_file)
  let ?channels = "filter (\<lambda>x. tag (cells tree x) = ''channel'')
      (addrs_list (cells tree) (children (cells tree root)) (xkids (read_document d)))"
  have chs: "findall_descendants tree root ''channel'' = Some ?channels"
    by (rule parsed_channels [OF al])
  have d: "distinct ?channels" using parsed_root(3) [OF al] by simp
  have "sum_list (map (\<lambda>ch. length (filter (removable (cells tree) c) (children (cells tree ch)))) chs)
      = length (filter (removable (cells tree) c) (concat (map (\<lambda>ch. children (cells tree ch)) chs)))"
    for chs by (induction chs) simp_all
  with channels_loop_filtered [OF d, of c "cells tree" 0] chs
  have "remove_items c (root, tree)
       = Some (Inr (tree\<lparr>cells := filtered (cells tree) c (set ?channels)\<rparr>,
                    length (filter (removable (cells tree) c)
                      (concat (map (\<lambda>ch. children (cells tree ch)) ?channels)))))"
    by (simp add: remove_items_def)
  with chs show ?thesis by (intro that [of ?channels]) simp_all
qed

lemma children_filtered:
  "set (children (filtered h c C parent))
     = {x \<in> set (children (h parent)). parent \<in> C \<longrightarrow> \<not> removable h c x}"
  by (auto simp: filtered_def)

lemma find_first:
  "\<forall>k\<in>set before. \<not> P k \<Longrightarrow> P first \<Longrightarrow> List.find P (before @ first # later) = Some first"
  by (induction before) simp_all

lemma example_parsed:
  "ET_parse [''appcast.xml'' \<mapsto> Wellformed (write_document spec_example)] ''appcast.xml''
     = Inr (8, example_tree)"
proof -
  have "fst (alloc spec_example empty_store) = 8" by code_simp
  then have "alloc spec_example empty_store = (8, example_tree)"
    by (simp add: example_tree_def prod_eq_iff)
  then show ?thesis by (simp add: ET_parse_def spec_example_read)
qed

lemma two_sparkle_parsed:
  "ET_parse [''appcast.xml'' \<mapsto> Wellformed (write_document two_sparkle_example)] ''appcast.xml''
     = Inr (4, two_sparkle_tree)"
proof -
  have "read_document (write_document two_sparkle_example) = two_sparkle_example"
    by code_simp
  moreover have "fst (alloc two_sparkle_example empty_store) = 4" by code_simp
  then have "alloc two_sparkle_example empty_store = (4, two_sparkle_tree)"
    by (simp add: two_sparkle_tree_def prod_eq_iff)
  ultimately show ?thesis by (simp add: ET_parse_def)
qed

section \<open>Properties of the program\<close>

text \<open>
  Claim C1 as stated fails on two documents. An item whose first Sparkle channel child
  reads \<^verbatim>\<open>stable\<close> and whose second reads \<^verbatim>\<open>edge\<close> is kept by a run for
  \<^verbatim>\<open>edge\<close>, and so is an item of a \<^verbatim>\<open>channel\<close> element that is the root of the
  document: in both written documents an item of a channel element still has a Sparkle
  channel child whose text is the target.
\<close>

theorem first_channel_text_counterexample:
  "clean_appcast ''appcast.xml'' ''edge''
       [''appcast.xml'' \<mapsto> Wellformed (write_document two_sparkle_example)]
     = Some \<lparr>stdout = [removed_message 0 ''edge'' ''appcast.xml''], stderr = [], status = 0,
             files = [''appcast.xml'' \<mapsto> Wellformed (write_document two_sparkle_example)],
             trace = [Opened_read ''appcast.xml'', Opened_write ''appcast.xml'']\<rparr>
   \<and> items_with_channel_text ''edge'' two_sparkle_example
     = [mk_item [mk_sparkle ''stable'', mk_sparkle ''edge'']]
   \<and> clean_appcast ''appcast.xml'' ''edge''
       [''appcast.xml'' \<mapsto> Wellformed (write_document root_channel_example)]
     = Some \<lparr>stdout = [removed_message 0 ''edge'' ''appcast.xml''], stderr = [], status = 0,
             files = [''appcast.xml'' \<mapsto> Wellformed (write_document root_channel_example)],
             trace = [Opened_read ''appcast.xml'', Opened_write ''appcast.xml'']\<rparr>
   \<and> items_with_channel_text ''edge'' root_channel_example = [mk_item [mk_sparkle ''edge'']]"
proof -
  have "try_body ''appcast.xml'' ''edge''
      [''appcast.xml'' \<mapsto> Wellformed (write_document two_sparkle_example)]
      = Some (Inr (write_document two_sparkle_example, 0))"
    by code_simp
  moreover have "try_body ''appcast.xml'' ''edge''
      [''appcast.xml'' \<mapsto> Wellformed (write_document root_channel_example)]
      = Some (Inr (write_document root_channel_example, 0))"
    by code_simp
  moreover have "items_with_channel_text ''edge'' two_sparkle_example
      = [mk_item [mk_sparkle ''stable'', mk_sparkle ''edge'']]"
    by code_simp
  moreover have "items_with_channel_text ''edge'' root_channel_example
      = [mk_item [mk_sparkle ''edge'']]"
    by code_simp
  ultimately show ?thesis by (simp add: clean_appcast_def)
qed

text \<open>
  Claim C1, amended. After a successful run for the channel name \<open>c\<close>, the file holds
  the serialization of a tree in which no \<^verbatim>\<open>channel\<close> element below the root has a
  direct \<^verbatim>\<open>item\<close> child whose first Sparkle channel child has the text \<open>c\<close>.
\<close>

theorem no_matching_item_left:
  assumes "clean_appcast path c fs = Some r" and "status r = 0"
  shows "\<exists>doc. files r path = Some (Wellformed (write_document doc))
           \<and> (\<forall>ch\<in>set (feed_channels doc). \<forall>e\<in>set (xkids ch). \<not> matching_item c e)"
proof -
  from assms obtain d where "fs path = Some (Wellformed d)" by (rule successful_run)
  with assms(1)
  have "files r path = Some (Wellformed (write_document (filtered_document c (read_document d))))"
    using clean_appcast_wellformed [of fs path d c] by auto
  moreover have "\<forall>ch\<in>set (feed_channels (filtered_document c (read_document d))).
      \<forall>e\<in>set (xkids ch). \<not> matching_item c e"
    using none_left [of c "read_document d"] by (auto simp: matching_items_def filter_empty_conv)
  ultimately show ?thesis by blast
qed

theorem no_matching_item_left_witness:
  "clean_appcast ''appcast.xml'' ''edge''
       [''appcast.xml'' \<mapsto> Wellformed (write_document spec_example)]
     = Some \<lparr>stdout = [removed_message 2 ''edge'' ''appcast.xml''], stderr = [], status = 0,
             files = [''appcast.xml'' \<mapsto> Wellformed (write_document spec_example_filtered)],
             trace = [Opened_read ''appcast.xml'', Opened_write ''appcast.xml'']\<rparr>
   \<and> (\<exists>doc. write_document spec_example_filtered = write_document doc
          \<and> list_all (\<lambda>ch. list_all (\<lambda>e. \<not> matching_item ''edge'' e) (xkids ch))
               (feed_channels doc))"
proof -
  note run = spec_example_run
  from no_matching_item_left [OF run] show ?thesis
    using run by (simp add: list_all_iff)
qed

text \<open>
  Claim C2 as stated fails on the same two documents: each has exactly one item, child of
  a channel element, with a Sparkle channel child whose text is \<^verbatim>\<open>edge\<close>, and the run
  reports 0 removed and writes the tree back as it was.
\<close>

theorem removed_count_counterexample:
  "length (items_with_channel_text ''edge'' two_sparkle_example) = 1
   \<and> clean_appcast ''appcast.xml'' ''edge''
       [''appcast.xml'' \<mapsto> Wellformed (write_document two_sparkle_example)]
     = Some \<lparr>stdout = [removed_message 0 ''edge'' ''appcast.xml''], stderr = [], status = 0,
             files = [''appcast.xml'' \<mapsto> Wellformed (write_document two_sparkle_example)],
             trace = [Opened_read ''appcast.xml'', Opened_write ''appcast.xml'']\<rparr>
   \<and> length (items_with_channel_text ''edge'' root_channel_example) = 1
   \<and> clean_appcast ''appcast.xml'' ''edge''
       [''appcast.xml'' \<mapsto> Wellformed (write_document root_channel_example)]
     = Some \<lparr>stdout = [removed_message 0 ''edge'' ''appcast.xml''], stderr = [], status = 0,
             files = [''appcast.xml'' \<mapsto> Wellformed (write_document root_channel_example)],
             trace = [Opened_read ''appcast.xml'', Opened_write ''appcast.xml'']\<rparr>"
proof -
  have "try_body ''appcast.xml'' ''edge''
      [''appcast.xml'' \<mapsto> Wellformed (write_document two_sparkle_example)]
      = Some (Inr (write_document two_sparkle_example, 0))"
    by code_simp
  moreover have "try_body ''appcast.xml'' ''edge''
      [''appcast.xml'' \<mapsto> Wellformed (write_document root_channel_example)]
      = Some (Inr (write_document root_channel_example, 0))"
    by code_simp
  moreover have "length (items_with_channel_text ''edge'' two_sparkle_example) = 1"
    by code_simp
  moreover have "length (items_with_channel_text ''edge'' root_channel_example) = 1"
    by code_simp
  ultimately show ?thesis by (simp add: clean_appcast_def)
qed

text \<open>
  Claim C2, amended. When exactly \<open>K\<close> direct \<^verbatim>\<open>item\<close> children of the
  \<^verbatim>\<open>channel\<close> elements below the root have a first Sparkle channel child whose text is
  the target, the run succeeds, reports \<open>K\<close>, and writes the tree of the file without
  exactly those items: none of them is left, and nothing but such items is dropped.
\<close>

theorem removes_and_counts_matching_items:
  assumes "fs path = Some (Wellformed d)"
    and "length (matching_items c (read_document d)) = K"
  shows "clean_appcast path c fs
       = Some \<lparr>stdout = [removed_message K c path], stderr = [], status = 0,
               files = fs(path \<mapsto>
                 Wellformed (write_document (filtered_document c (read_document d)))),
               trace = [Opened_read path, Opened_write path]\<rparr>
     \<and> matching_items c (filtered_document c (read_document d)) = []
     \<and> only_drops_below (removed_item c) (read_document d)
         (filtered_document c (read_document d))"
  using clean_appcast_wellformed [of fs path d c] assms none_left [of c "read_document d"]
    only_drops_filtered_document [of c "read_document d"]
  by simp

theorem removes_and_counts_matching_items_witness:
  "[''appcast.xml'' \<mapsto> Wellformed (write_document spec_example)] ''appcast.xml''
     = Some (Wellformed (write_document spec_example))
   \<and> read_document (write_document spec_example) = spec_example
   \<and> length (matching_items ''edge'' spec_example) = 2
   \<and> filtered_document ''edge'' spec_example = spec_example_filtered
   \<and> clean_appcast ''appcast.xml'' ''edge''
       [''appcast.xml'' \<mapsto> Wellformed (write_document spec_example)]
     = Some \<lparr>stdout = [removed_message 2 ''edge'' ''appcast.xml''], stderr = [], status = 0,
             files = [''appcast.xml'' \<mapsto> Wellformed (write_document spec_example_filtered)],
             trace = [Opened_read ''appcast.xml'', Opened_write ''appcast.xml'']\<rparr>"
proof -
  have h2: "length (matching_items ''edge'' (read_document (write_document spec_example))) = 2"
    by (simp only: spec_example_read) (simp add: example_defs)
  have d: "filtered_document ''edge'' spec_example = spec_example_filtered"
    by (simp add: example_defs)
  from removes_and_counts_matching_items
    [of "[''appcast.xml'' \<mapsto> Wellformed (write_document spec_example)]" "''appcast.xml''"
        "write_document spec_example" "''edge''" 2]
    spec_example_file h2 d
  show ?thesis by (simp add: spec_example_read)
qed

text \<open>
  Claim C3 as stated fails: of the file \<open>noted_file\<close> a run for \<^verbatim>\<open>edge\<close> writes
  neither the comment, nor the document type declaration, nor the declaration of the
  unused namespace, and the character data after the removed item (its tail) goes with
  the item.
\<close>

theorem other_content_counterexample:
  "read_document noted_file = noted_example
   \<and> clean_appcast ''appcast.xml'' ''edge'' [''appcast.xml'' \<mapsto> Wellformed noted_file]
     = Some \<lparr>stdout = [removed_message 1 ''edge'' ''appcast.xml''], stderr = [], status = 0,
             files = [''appcast.xml'' \<mapsto> Wellformed
                        \<lparr>extras = [XML_declaration written_declaration],
                         root_element = write_element (mk_rss [mk_channel [title_element]])\<rparr>],
             trace = [Opened_read ''appcast.xml'', Opened_write ''appcast.xml'']\<rparr>"
proof -
  have "read_document noted_file = noted_example" by code_simp
  moreover have "try_body ''appcast.xml'' ''edge'' [''appcast.xml'' \<mapsto> Wellformed noted_file]
      = Some (Inr (\<lparr>extras = [XML_declaration written_declaration],
                    root_element = write_element (mk_rss [mk_channel [title_element]])\<rparr>, 1))"
    by code_simp
  ultimately show ?thesis by (simp add: clean_appcast_def)
qed

text \<open>
  Claim C3, amended. For every well-formed input the run succeeds and writes the
  serialization of a tree that is the element tree of the input with only matching items
  of \<^verbatim>\<open>channel\<close> elements below the root dropped, each with its content and its tail:
  every other element is kept with its tag, attributes, text and tail, in the same order,
  and no other file changes. What is not an element or its character data (comments,
  processing instructions, the document type declaration, the declarations of the input)
  is not carried over, and the text is written as the serializer escapes it.
\<close>

theorem only_matching_items_dropped:
  assumes "fs path = Some (Wellformed d)"
  shows "\<exists>r doc'. clean_appcast path c fs = Some r \<and> status r = 0
           \<and> files r path = Some (Wellformed (write_document doc'))
           \<and> only_drops_below (removed_item c) (read_document d) doc'
           \<and> (\<forall>other. other \<noteq> path \<longrightarrow> files r other = fs other)"
  using clean_appcast_wellformed [of fs path d c] assms
    only_drops_filtered_document [of c "read_document d"]
  by auto

theorem only_matching_items_dropped_witness:
  "[''appcast.xml'' \<mapsto> Wellformed noted_file] ''appcast.xml'' = Some (Wellformed noted_file)
   \<and> (\<exists>r doc'. clean_appcast ''appcast.xml'' ''edge''
                   [''appcast.xml'' \<mapsto> Wellformed noted_file] = Some r
           \<and> status r = 0
           \<and> files r ''appcast.xml'' = Some (Wellformed (write_document doc'))
           \<and> only_drops_below (removed_item ''edge'') (read_document noted_file) doc'
           \<and> (\<forall>other. other \<noteq> ''appcast.xml'' \<longrightarrow>
                 files r other = [''appcast.xml'' \<mapsto> Wellformed noted_file] other))"
proof -
  have h: "[''appcast.xml'' \<mapsto> Wellformed noted_file] ''appcast.xml''
      = Some (Wellformed noted_file)"
    by simp
  from only_matching_items_dropped
    [of "[''appcast.xml'' \<mapsto> Wellformed noted_file]" "''appcast.xml''" noted_file "''edge''"] h
  show ?thesis by blast
qed

text \<open>
  Claim C4 as stated fails on items inside items. In the first document the
  \<^verbatim>\<open>stable\<close> item lies inside an \<^verbatim>\<open>edge\<close> item: the run for \<^verbatim>\<open>edge\<close> removes
  the outer item and the written document has no item at all. In the second the
  \<^verbatim>\<open>stable\<close> item encloses an \<^verbatim>\<open>edge\<close> item: it is kept, without the item it held.
\<close>

theorem item_inside_item_counterexample:
  "clean_appcast ''appcast.xml'' ''edge''
       [''appcast.xml'' \<mapsto> Wellformed (write_document inside_edge_example)]
     = Some \<lparr>stdout = [removed_message 1 ''edge'' ''appcast.xml''], stderr = [], status = 0,
             files = [''appcast.xml'' \<mapsto> Wellformed (write_document (mk_rss [mk_channel []]))],
             trace = [Opened_read ''appcast.xml'', Opened_write ''appcast.xml'']\<rparr>
   \<and> clean_appcast ''appcast.xml'' ''edge''
       [''appcast.xml'' \<mapsto> Wellformed (write_document inside_stable_example)]
     = Some \<lparr>stdout = [removed_message 1 ''edge'' ''appcast.xml''], stderr = [], status = 0,
             files = [''appcast.xml'' \<mapsto> Wellformed (write_document
                        (mk_rss [mk_channel [mk_item [mk_sparkle ''stable'', mk_channel []]]]))],
             trace = [Opened_read ''appcast.xml'', Opened_write ''appcast.xml'']\<rparr>"
proof -
  have "try_body ''appcast.xml'' ''edge''
      [''appcast.xml'' \<mapsto> Wellformed (write_document inside_edge_example)]
      = Some (Inr (write_document (mk_rss [mk_channel []]), 1))"
    by code_simp
  moreover have "try_body ''appcast.xml'' ''edge''
      [''appcast.xml'' \<mapsto> Wellformed (write_document inside_stable_example)]
      = Some (Inr (write_document
                     (mk_rss [mk_channel [mk_item [mk_sparkle ''stable'', mk_channel []]]]), 1))"
    by code_simp
  ultimately show ?thesis by (simp add: clean_appcast_def)
qed

text \<open>
  Claim C4, amended. The match is equality of strings. For every item whose first Sparkle
  channel child has a text other than the target, be it by letter case only, and whose
  parent is an element the filter keeps (neither a removed item nor inside one), the run
  succeeds and the written document holds the item with its tag, attributes, text and
  tail, and with its content but for the items in it that are themselves removed.
\<close>

theorem other_channel_text_keeps_item:
  assumes "fs path = Some (Wellformed d)"
    and "parent \<in> set (kept_elements c (read_document d))"
    and "e \<in> set (xkids parent)"
    and "xtag e = ''item''"
    and "first_sparkle_channel e = Some s"
    and "xtext s \<noteq> Some c"
  shows "\<exists>r doc' e'. clean_appcast path c fs = Some r \<and> status r = 0
           \<and> files r path = Some (Wellformed (write_document doc'))
           \<and> e' \<in> set (elements doc')
           \<and> only_drops (removed_item c) e e'"
proof -
  from assms(5,6) have "\<not> matching_item c e" by (simp add: matching_item_def)
  with assms(2,3)
  have "without_items c e \<in> set (elements (filtered_document c (read_document d)))"
    by (rule kept_child_in_filtered_document)
  moreover have "only_drops (removed_item c) e (without_items c e)"
    by (rule only_drops_without)
  ultimately show ?thesis
    using clean_appcast_wellformed [of fs path d c] assms(1) by auto
qed

theorem other_channel_text_keeps_item_witness:
  "[''appcast.xml'' \<mapsto> Wellformed (write_document spec_example)] ''appcast.xml''
     = Some (Wellformed (write_document spec_example))
   \<and> mk_channel [mk_item [mk_sparkle ''stable''], mk_item [mk_sparkle ''edge''],
                  mk_item [mk_sparkle ''edge''], mk_item []]
       \<in> set (kept_elements ''Edge'' (read_document (write_document spec_example)))
   \<and> xtag (mk_item [mk_sparkle ''edge'']) = ''item''
   \<and> first_sparkle_channel (mk_item [mk_sparkle ''edge'']) = Some (mk_sparkle ''edge'')
   \<and> xtext (mk_sparkle ''edge'') = Some ''edge''
   \<and> (\<exists>r doc' e'. clean_appcast ''appcast.xml'' ''Edge''
                     [''appcast.xml'' \<mapsto> Wellformed (write_document spec_example)] = Some r
          \<and> status r = 0
          \<and> files r ''appcast.xml'' = Some (Wellformed (write_document doc'))
          \<and> e' \<in> set (elements doc')
          \<and> only_drops (removed_item ''Edge'') (mk_item [mk_sparkle ''edge'']) e')"
proof -
  let ?feed = "mk_channel [mk_item [mk_sparkle ''stable''], mk_item [mk_sparkle ''edge''],
      mk_item [mk_sparkle ''edge''], mk_item []]"
  have h2: "?feed \<in> set (kept_elements ''Edge'' (read_document (write_document spec_example)))"
    by code_simp
  have h3: "mk_item [mk_sparkle ''edge''] \<in> set (xkids ?feed)" by code_simp
  have h4: "xtag (mk_item [mk_sparkle ''edge'']) = ''item''" by code_simp
  have h5: "first_sparkle_channel (mk_item [mk_sparkle ''edge'']) = Some (mk_sparkle ''edge'')"
    by code_simp
  have tx: "xtext (mk_sparkle ''edge'') = Some ''edge''" by code_simp
  then have h6: "xtext (mk_sparkle ''edge'') \<noteq> Some ''Edge''" by simp
  from other_channel_text_keeps_item
    [of "[''appcast.xml'' \<mapsto> Wellformed (write_document spec_example)]" "''appcast.xml''"
        "write_document spec_example" ?feed "''Edge''" "mk_item [mk_sparkle ''edge'']"
        "mk_sparkle ''edge''"]
    spec_example_file h2 h3 h4 h5 h6 tx
  show ?thesis by simp
qed

text \<open>
  Claim C5. In the parsed tree of any file, an element with no child in the Sparkle
  namespace named \<^verbatim>\<open>channel\<close> is never removed, whatever the target: the loops end
  without an exception and the element is still in the child list of its parent.
\<close>

theorem item_without_channel_kept:
  assumes "ET_parse fs path = Inr (root, tree)"
    and "item \<in> set (children (cells tree parent))"
    and "\<forall>k\<in>set (children (cells tree item)). tag (cells tree k) \<noteq> sparkle_channel"
  shows "\<exists>tree' n. remove_items c (root, tree) = Some (Inr (tree', n))
           \<and> item \<in> set (children (cells tree' parent))"
proof -
  from assms(1) obtain channels where
    run: "remove_items c (root, tree)
       = Some (Inr (tree\<lparr>cells := filtered (cells tree) c (set channels)\<rparr>,
                    length (filter (removable (cells tree) c)
                      (concat (map (\<lambda>ch. children (cells tree ch)) channels)))))"
    by (rule remove_items_file)
  from assms(3) have "Element_find (cells tree) item sparkle_channel = None"
    by (simp add: Element_find_def find_None_iff)
  then have "\<not> removable (cells tree) c item"
    by (simp add: removable_def item_matches_def)
  with assms(2) have "item \<in> set (children (filtered (cells tree) c (set channels) parent))"
    by (simp add: children_filtered)
  then show ?thesis using run by simp
qed

theorem item_without_channel_kept_witness:
  "ET_parse [''appcast.xml'' \<mapsto> Wellformed (write_document spec_example)] ''appcast.xml''
     = Inr (8, example_tree)
   \<and> 6 \<in> set (children (cells example_tree 7))
   \<and> children (cells example_tree 6) = []
   \<and> (\<exists>tree' n. remove_items ''edge'' (8, example_tree) = Some (Inr (tree', n))
          \<and> 6 \<in> set (children (cells tree' 7)))"
proof -
  have h2: "6 \<in> set (children (cells example_tree 7))" by code_simp
  have kids: "children (cells example_tree 6) = []" by code_simp
  then have h3: "\<forall>k\<in>set (children (cells example_tree 6)).
      tag (cells example_tree k) \<noteq> sparkle_channel"
    by simp
  from item_without_channel_kept [OF example_parsed h2 h3] example_parsed h2 kids
  show ?thesis by simp
qed

text \<open>
  Claim C6 as stated fails. The file \<open>cr_file\<close> has the Sparkle channel text
  \<^verbatim>\<open>edge&#13;\<close>, which is parsed with a carriage return and written with the
  carriage return as itself; the next parse reads a line feed there. For the target
  \<^verbatim>\<open>edge\<close> followed by a line feed the first run removes nothing, and the second
  run on the file it left removes the item and writes another file.
\<close>

theorem second_run_counterexample:
  "clean_appcast ''appcast.xml'' edge_line [''appcast.xml'' \<mapsto> Wellformed cr_file]
     = Some \<lparr>stdout = [removed_message 0 edge_line ''appcast.xml''], stderr = [], status = 0,
             files = [''appcast.xml'' \<mapsto> Wellformed (write_document cr_example)],
             trace = [Opened_read ''appcast.xml'', Opened_write ''appcast.xml'']\<rparr>
   \<and> clean_appcast ''appcast.xml'' edge_line
       [''appcast.xml'' \<mapsto> Wellformed (write_document cr_example)]
     = Some \<lparr>stdout = [removed_message 1 edge_line ''appcast.xml''], stderr = [], status = 0,
             files = [''appcast.xml'' \<mapsto> Wellformed (write_document (mk_rss [mk_channel []]))],
             trace = [Opened_read ''appcast.xml'', Opened_write ''appcast.xml'']\<rparr>"
proof -
  have "try_body ''appcast.xml'' edge_line [''appcast.xml'' \<mapsto> Wellformed cr_file]
      = Some (Inr (write_document cr_example, 0))"
    by code_simp
  moreover have "try_body ''appcast.xml'' edge_line
      [''appcast.xml'' \<mapsto> Wellformed (write_document cr_example)]
      = Some (Inr (write_document (mk_rss [mk_channel []]), 1))"
    by code_simp
  ultimately show ?thesis by (simp add: clean_appcast_def)
qed

text \<open>
  Claim C6, amended. When no text or tail of the parsed document holds a carriage return
  (the file has none written as a character reference in its character data), a second
  run with the same channel name on the files the first one left reports 0 removed and
  leaves the files as they are.
\<close>

theorem second_run_changes_nothing:
  assumes "fs path = Some (Wellformed d)" and "cr_free (read_document d)"
  shows "\<exists>first. clean_appcast path c fs = Some first \<and> status first = 0
           \<and> clean_appcast path c (files first)
               = Some \<lparr>stdout = [removed_message 0 c path], stderr = [], status = 0,
                       files = files first,
                       trace = [Opened_read path, Opened_write path]\<rparr>"
proof -
  let ?doc' = "filtered_document c (read_document d)"
  let ?fs' = "fs(path \<mapsto> Wellformed (write_document ?doc'))"
  have written: "?fs' path = Some (Wellformed (write_document ?doc'))" by simp
  have reread: "read_document (write_document ?doc') = ?doc'"
    using filtered_document_readable [OF assms(2) reported_read_document, of c]
    by (rule read_write_document)
  have "clean_appcast path c ?fs'
      = Some \<lparr>stdout = [removed_message 0 c path], stderr = [], status = 0,
              files = ?fs', trace = [Opened_read path, Opened_write path]\<rparr>"
    using clean_appcast_wellformed [of ?fs' path "write_document ?doc'" c] written
    by (simp add: reread none_left filtered_document_idem)
  with clean_appcast_wellformed [of fs path d c] assms(1) show ?thesis by simp
qed

theorem second_run_changes_nothing_witness:
  "[''appcast.xml'' \<mapsto> Wellformed (write_document spec_example)] ''appcast.xml''
     = Some (Wellformed (write_document spec_example))
   \<and> cr_free (read_document (write_document spec_example))
   \<and> (\<exists>first. clean_appcast ''appcast.xml'' ''edge''
                   [''appcast.xml'' \<mapsto> Wellformed (write_document spec_example)] = Some first
           \<and> status first = 0
           \<and> clean_appcast ''appcast.xml'' ''edge'' (files first)
               = Some \<lparr>stdout = [removed_message 0 ''edge'' ''appcast.xml''], stderr = [],
                       status = 0, files = files first,
                       trace = [Opened_read ''appcast.xml'', Opened_write ''appcast.xml'']\<rparr>)"
proof -
  have h2: "cr_free (read_document (write_document spec_example))" by code_simp
  from second_run_changes_nothing
    [of "[''appcast.xml'' \<mapsto> Wellformed (write_document spec_example)]" "''appcast.xml''"
        "write_document spec_example" "''edge''"] spec_example_file h2
  show ?thesis by blast
qed

text \<open>
  Claim C7 as stated fails: no item of \<open>noted_file\<close> has the Sparkle channel text
  \<^verbatim>\<open>beta\<close>, and the run for \<^verbatim>\<open>beta\<close> reports 0 removed, yet the file it writes
  differs from the input: the comment, the document type declaration and the declaration
  of the unused namespace are gone and the XML declaration is the serializer's.
\<close>

theorem nothing_matching_counterexample:
  "list_all (\<lambda>e. xtag e \<noteq> ''item'' \<or>
        list_all (\<lambda>s. xtag s \<noteq> sparkle_channel \<or> xtext s \<noteq> Some ''beta'') (xkids e))
      (elements (read_document noted_file))
   \<and> clean_appcast ''appcast.xml'' ''beta'' [''appcast.xml'' \<mapsto> Wellformed noted_file]
     = Some \<lparr>stdout = [removed_message 0 ''beta'' ''appcast.xml''], stderr = [], status = 0,
             files = [''appcast.xml'' \<mapsto> Wellformed
                        \<lparr>extras = [XML_declaration written_declaration,
                                   Namespace_declaration SPARKLE_NS],
                         root_element = root_element noted_file\<rparr>],
             trace = [Opened_read ''appcast.xml'', Opened_write ''appcast.xml'']\<rparr>
   \<and> \<lparr>extras = [XML_declaration written_declaration, Namespace_declaration SPARKLE_NS],
       root_element = root_element noted_file\<rparr> \<noteq> noted_file"
proof -
  have "list_all (\<lambda>e. xtag e \<noteq> ''item'' \<or>
        list_all (\<lambda>s. xtag s \<noteq> sparkle_channel \<or> xtext s \<noteq> Some ''beta'') (xkids e))
      (elements (read_document noted_file))"
    by code_simp
  moreover have "try_body ''appcast.xml'' ''beta'' [''appcast.xml'' \<mapsto> Wellformed noted_file]
      = Some (Inr (\<lparr>extras = [XML_declaration written_declaration,
                              Namespace_declaration SPARKLE_NS],
                    root_element = root_element noted_file\<rparr>, 0))"
    by code_simp
  moreover have "\<lparr>extras = [XML_declaration written_declaration, Namespace_declaration SPARKLE_NS],
       root_element = root_element noted_file\<rparr> \<noteq> noted_file"
    by code_simp
  ultimately show ?thesis by (simp add: clean_appcast_def)
qed

text \<open>
  Claim C7, amended. When no item anywhere in the document has a Sparkle channel child
  whose text is the target, the run reports 0 removed and writes the serialization of the
  element tree of the input: every element with its tag, attributes, text and tail, in the
  same order. What the parser does not report (comments, processing instructions, the
  document type declaration, the declarations of the input) is not in the written file.
\<close>

theorem nothing_matching_nothing_changed:
  assumes "fs path = Some (Wellformed d)"
    and "\<forall>e\<in>set (elements (read_document d)). xtag e = ''item'' \<longrightarrow>
            (\<forall>s\<in>set (xkids e). xtag s = sparkle_channel \<longrightarrow> xtext s \<noteq> Some c)"
  shows "clean_appcast path c fs
       = Some \<lparr>stdout = [removed_message 0 c path], stderr = [], status = 0,
               files = fs(path \<mapsto> Wellformed (write_document (read_document d))),
               trace = [Opened_read path, Opened_write path]\<rparr>"
proof -
  from assms(2) have none: "matching_items c (read_document d) = []"
    by (rule no_channel_text_no_match)
  then have "filtered_document c (read_document d) = read_document d"
    by (rule nothing_to_remove)
  with clean_appcast_wellformed [of fs path d c] none assms(1) show ?thesis by simp
qed

theorem nothing_matching_nothing_changed_witness:
  "[''appcast.xml'' \<mapsto> Wellformed noted_file] ''appcast.xml'' = Some (Wellformed noted_file)
   \<and> list_all (\<lambda>e. xtag e \<noteq> ''item'' \<or>
          list_all (\<lambda>s. xtag s \<noteq> sparkle_channel \<or> xtext s \<noteq> Some ''beta'') (xkids e))
        (elements (read_document noted_file))
   \<and> clean_appcast ''appcast.xml'' ''beta'' [''appcast.xml'' \<mapsto> Wellformed noted_file]
     = Some \<lparr>stdout = [removed_message 0 ''beta'' ''appcast.xml''], stderr = [], status = 0,
             files = [''appcast.xml'' \<mapsto> Wellformed (write_document (read_document noted_file))],
             trace = [Opened_read ''appcast.xml'', Opened_write ''appcast.xml'']\<rparr>"
proof -
  have h1: "[''appcast.xml'' \<mapsto> Wellformed noted_file] ''appcast.xml''
      = Some (Wellformed noted_file)"
    by simp
  have h2: "list_all (\<lambda>e. xtag e \<noteq> ''item'' \<or>
          list_all (\<lambda>s. xtag s \<noteq> sparkle_channel \<or> xtext s \<noteq> Some ''beta'') (xkids e))
        (elements (read_document noted_file))"
    by code_simp
  then have h2': "\<forall>e\<in>set (elements (read_document noted_file)). xtag e = ''item'' \<longrightarrow>
            (\<forall>s\<in>set (xkids e). xtag s = sparkle_channel \<longrightarrow> xtext s \<noteq> Some ''beta'')"
    by (auto simp: list_all_iff)
  from nothing_matching_nothing_changed
    [of "[''appcast.xml'' \<mapsto> Wellformed noted_file]" "''appcast.xml''" noted_file
        "''beta''"] h1 h2' h2
  show ?thesis by simp
qed

text \<open>
  Claim C8. Invoked with a path that names no file, the program prints
  \<^verbatim>\<open>File not found: <path>\<close> after the ballot mark to the error stream and exits
  with status 1; nothing is written to standard output, no file is opened, and the files are
  as before, so none exists at that path afterwards.
\<close>

theorem missing_file_fails:
  assumes "fs path = None"
  shows "main [script, path, c] fs
       = Some \<lparr>stdout = [], stderr = [ballot_x @ '' File not found: '' @ path], status = 1,
               files = fs, trace = []\<rparr>"
  using assms
  by (simp add: main_def clean_appcast_def try_body_def ET_parse_def failure_def)

theorem missing_file_fails_witness:
  "Map.empty ''appcast.xml'' = None \<and>
   main [''clean_appcast.py'', ''appcast.xml'', ''edge''] Map.empty
     = Some \<lparr>stdout = [], stderr = [ballot_x @ '' File not found: appcast.xml''], status = 1,
             files = Map.empty, trace = []\<rparr>"
  using missing_file_fails [of Map.empty "''appcast.xml''" "''clean_appcast.py''" "''edge''"]
  by simp

text \<open>
  Claim C9. When the number of positional arguments (those after the script's name in
  \<^verbatim>\<open>sys.argv\<close>) is not two, the program prints the usage lines to standard output and
  exits with status 1; no file is opened for reading or writing and the files are as
  before.
\<close>

theorem wrong_argument_count_prints_usage:
  assumes "length args \<noteq> 2"
  shows "main (script # args) fs
       = Some \<lparr>stdout = usage, stderr = [], status = 1, files = fs, trace = []\<rparr>"
  using assms by (simp add: main_def)

theorem wrong_argument_count_prints_usage_witness:
  "length [''appcast.xml''] \<noteq> 2 \<and>
   main [''clean_appcast.py'', ''appcast.xml'']
       [''appcast.xml'' \<mapsto> Wellformed (write_document spec_example)]
     = Some \<lparr>stdout = usage, stderr = [], status = 1,
             files = [''appcast.xml'' \<mapsto> Wellformed (write_document spec_example)],
             trace = []\<rparr>"
  using wrong_argument_count_prints_usage
    [of "[''appcast.xml'']" "''clean_appcast.py''"
        "[''appcast.xml'' \<mapsto> Wellformed (write_document spec_example)]"]
  by simp

text \<open>
  Claim C10. For an item of a channel element that the search found, whose children are
  \<open>before @ first # later\<close> with \<open>first\<close> the first one tagged as a Sparkle channel,
  the item stays in its parent exactly when the text of \<open>first\<close> is not the target; the
  children in \<open>later\<close> play no part. In particular an item whose first Sparkle channel
  child has no text stays, for every target.
\<close>

theorem first_sparkle_channel_decides:
  assumes "ET_parse fs path = Inr (root, tree)"
    and "findall_descendants tree root ''channel'' = Some channels"
    and "feed \<in> set channels"
    and "item \<in> set (Element_findall (cells tree) feed ''item'')"
    and "children (cells tree item) = before @ first # later"
    and "\<forall>k\<in>set before. tag (cells tree k) \<noteq> sparkle_channel"
    and "tag (cells tree first) = sparkle_channel"
  shows "\<exists>tree' n. remove_items c (root, tree) = Some (Inr (tree', n))
           \<and> (item \<in> set (children (cells tree' feed))) = (text' (cells tree first) \<noteq> Some c)
           \<and> (text' (cells tree first) = None \<longrightarrow> item \<in> set (children (cells tree' feed)))"
proof -
  from assms(1) obtain channels' where
    "findall_descendants tree root ''channel'' = Some channels'"
    and "remove_items c (root, tree)
       = Some (Inr (tree\<lparr>cells := filtered (cells tree) c (set channels')\<rparr>,
                    length (filter (removable (cells tree) c)
                      (concat (map (\<lambda>ch. children (cells tree ch)) channels')))))"
    by (rule remove_items_file)
  with assms(2) have run: "remove_items c (root, tree)
       = Some (Inr (tree\<lparr>cells := filtered (cells tree) c (set channels)\<rparr>,
                    length (filter (removable (cells tree) c)
                      (concat (map (\<lambda>ch. children (cells tree ch)) channels)))))"
    by simp
  from assms(4) have kid: "item \<in> set (children (cells tree feed))"
    and tg: "tag (cells tree item) = ''item''"
    by (simp_all add: Element_findall_def)
  from assms(5-7) have "Element_find (cells tree) item sparkle_channel = Some first"
    by (simp add: Element_find_def find_first)
  with tg have "removable (cells tree) c item = (text' (cells tree first) = Some c)"
    by (simp add: removable_def item_matches_def)
  with kid assms(3)
  have "(item \<in> set (children (filtered (cells tree) c (set channels) feed)))
      = (text' (cells tree first) \<noteq> Some c)"
    by (simp add: children_filtered)
  then show ?thesis using run by auto
qed

theorem first_sparkle_channel_decides_witness:
  "ET_parse [''appcast.xml'' \<mapsto> Wellformed (write_document two_sparkle_example)] ''appcast.xml''
     = Inr (4, two_sparkle_tree)
   \<and> findall_descendants two_sparkle_tree 4 ''channel'' = Some [3]
   \<and> 2 \<in> set (Element_findall (cells two_sparkle_tree) 3 ''item'')
   \<and> children (cells two_sparkle_tree 2) = [] @ 0 # [1]
   \<and> tag (cells two_sparkle_tree 0) = sparkle_channel
   \<and> text' (cells two_sparkle_tree 0) = Some ''stable''
   \<and> tag (cells two_sparkle_tree 1) = sparkle_channel
   \<and> text' (cells two_sparkle_tree 1) = Some ''edge''
   \<and> (\<exists>tree' n. remove_items ''edge'' (4, two_sparkle_tree) = Some (Inr (tree', n))
          \<and> 2 \<in> set (children (cells tree' 3)))"
proof -
  have h2: "findall_descendants two_sparkle_tree 4 ''channel'' = Some [3]" by code_simp
  have h3: "(3::nat) \<in> set [3]" by simp
  have h4: "2 \<in> set (Element_findall (cells two_sparkle_tree) 3 ''item'')" by code_simp
  have h5: "children (cells two_sparkle_tree 2) = [] @ 0 # [1]" by code_simp
  have h6: "\<forall>k\<in>set []. tag (cells two_sparkle_tree k) \<noteq> sparkle_channel" by simp
  have h7: "tag (cells two_sparkle_tree 0) = sparkle_channel" by code_simp
  have tx: "text' (cells two_sparkle_tree 0) = Some ''stable''" by code_simp
  have l1: "tag (cells two_sparkle_tree 1) = sparkle_channel" by code_simp
  have l2: "text' (cells two_sparkle_tree 1) = Some ''edge''" by code_simp
  from first_sparkle_channel_decides [OF two_sparkle_parsed h2 h3 h4 h5 h6 h7, of "''edge''"]
    two_sparkle_parsed h2 h4 h5 h7 tx l1 l2
  show ?thesis by auto
qed

end
